theory Spec2Isabelle
  imports Main "HOL-Library.Sublist" "HOL-Library.AList"
begin

section \<open>Strings\<close>

text \<open>
  JavaScript strings are modelled as \<open>string\<close> (lists of characters). The three string
  operations of \<^verbatim>\<open>extension.ts\<close> that matter are \<^verbatim>\<open>String.prototype.includes\<close>
  (a substring test), \<^verbatim>\<open>String.prototype.replace\<close> with a string pattern (the first
  occurrence is replaced) and the rendering of a number inside a template literal.
\<close>

fun str_includes :: "string \<Rightarrow> string \<Rightarrow> bool" where
  "str_includes [] p = (p = [])"
| "str_includes (c # cs) p = (prefix p (c # cs) \<or> str_includes cs p)"

fun str_replace :: "string \<Rightarrow> string \<Rightarrow> string \<Rightarrow> string" where
  "str_replace [] p r = (if p = [] then r else [])"
| "str_replace (c # cs) p r =
     (if prefix p (c # cs) then r @ drop (length p) (c # cs) else c # str_replace cs p r)"

text \<open>
  \<^verbatim>\<open>${port}\<close>: the decimal rendering of a port number. Ports are natural numbers; a
  JavaScript number in the port range is printed in plain decimal notation.
\<close>

fun toString :: "nat \<Rightarrow> string" where
  "toString n = (if n < 10 then [''0123456789'' ! n]
                 else toString (n div 10) @ [''0123456789'' ! (n mod 10)])"

declare toString.simps [simp del]

text \<open>
  The number of positions at which a pattern occurs in a string. It is not part of the
  program; it is the measure used to say "exactly one reference".
\<close>

fun occurrences :: "string \<Rightarrow> string \<Rightarrow> nat" where
  "occurrences [] p = (if p = [] then 1 else 0)"
| "occurrences (c # cs) p = (if prefix p (c # cs) then 1 else 0) + occurrences cs p"

section \<open>Script injection\<close>

text \<open>
  \<^verbatim>\<open>
  function injectScript(html: string, port: number) {
    if (html.includes("flashsync.js")) return html;
    const tag = `\n<script src="http://127.0.0.1:${port}/flashsync.js" defer></script>\n`;
    if (html.includes("</head>")) return html.replace("</head>", tag + "</head>");
    if (html.includes("</body>")) return html.replace("</body>", tag + "</body>");
    return html + tag;
  }
  \<close>
  The replacement strings contain no dollar sign (see \<open>script_tag_no_dollar\<close>), so none of
  the special replacement patterns of \<^verbatim>\<open>replace\<close> applies and the replacement is inserted
  literally.
\<close>

definition script_tag :: "nat \<Rightarrow> string" where
  "script_tag port =
     [CHR 0x0A] @ ''<script src='' @ [CHR 0x22] @ ''http://127.0.0.1:'' @ toString port
       @ ''/flashsync.js'' @ [CHR 0x22] @ '' defer></script>'' @ [CHR 0x0A]"

definition injectScript :: "string \<Rightarrow> nat \<Rightarrow> string" where
  "injectScript html port =
     (if str_includes html ''flashsync.js'' then html
      else let tag = script_tag port in
        if str_includes html ''</head>'' then str_replace html ''</head>'' (tag @ ''</head>'')
        else if str_includes html ''</body>'' then str_replace html ''</body>'' (tag @ ''</body>'')
        else html @ tag)"

section \<open>Port allocation\<close>

text \<open>
  \<^verbatim>\<open>
  function getFreePort(start = 9090): Promise<number> {
    return new Promise((resolve) => {
      const s = net.createServer();
      s.listen(start, "127.0.0.1", () => {
        const port = (s.address() as any).port;
        s.close(() => resolve(port));
      });
      s.on("error", () => resolve(getFreePort(start + 1)));
    });
  }
  \<close>
  The environment is the function \<open>listen\<close>, the outcome of binding a listener to a port
  of the loopback address: \<open>None\<close> when the error event is raised, \<open>Some q\<close> when the
  listener is bound, \<open>q\<close> being the port that \<^verbatim>\<open>s.address()\<close> then reports (the requested
  port, or for a request of port 0 the port the system assigns). For a number that is not a
  port, 65536 or more, \<^verbatim>\<open>listen\<close> throws a range error before it binds anything; the throw
  happens inside the executor of the promise, so the promise is rejected, and with it every
  promise of the chain that was resolved with it. A rejection is the value \<open>Inl\<close>.
\<close>

datatype error = ERR_SOCKET_BAD_PORT nat | CloseFailed

function getFreePort :: "(nat \<Rightarrow> nat option) \<Rightarrow> nat \<Rightarrow> error + nat" where
  "getFreePort listen start =
     (if 65536 \<le> start then Inl (ERR_SOCKET_BAD_PORT start)
      else case listen start of
             Some port \<Rightarrow> Inr port
           | None \<Rightarrow> getFreePort listen (start + 1))"
  by pat_completeness auto
termination
  by (relation "measure (\<lambda>(listen, start). 65536 - start)") auto

declare getFreePort.simps [simp del]

section \<open>File extensions\<close>

text \<open>
  \<^verbatim>\<open>path.extname\<close> belongs to the Node library. The model follows its documented
  behaviour on POSIX paths: the extension runs from the last dot of the last path segment
  to the end of that segment, and is empty when the segment has no dot, when its only dot
  is its first character, or when the segment is \<^verbatim>\<open>..\<close>. \<^verbatim>\<open>toLowerCase\<close> maps the
  letters A to Z to lower case.
\<close>

definition extname :: "string \<Rightarrow> string" where
  "extname p =
     (let seg = takeWhile (\<lambda>c. c \<noteq> CHR ''/'') (dropWhile (\<lambda>c. c = CHR ''/'') (rev p));
          ext = takeWhile (\<lambda>c. c \<noteq> CHR ''.'') seg
      in if CHR ''.'' \<notin> set seg \<or> length ext + 1 = length seg \<or> seg = ''..'' then []
         else CHR ''.'' # rev ext)"

definition lower_char :: "char \<Rightarrow> char" where
  "lower_char c =
     (case map_of (zip ''ABCDEFGHIJKLMNOPQRSTUVWXYZ'' ''abcdefghijklmnopqrstuvwxyz'') c of
        Some l \<Rightarrow> l | None \<Rightarrow> c)"

definition toLowerCase :: "string \<Rightarrow> string" where
  "toLowerCase s = map lower_char s"

section \<open>The engine state\<close>

text \<open>
  The module-level variables of \<^verbatim>\<open>extension.ts\<close> together with the part of the host that
  the handlers act on: the pending \<^verbatim>\<open>setTimeout\<close> callbacks of the event loop, its clock
  (in milliseconds), the text of the open documents, and the calls of \<open>startServer\<close>
  suspended at their \<^verbatim>\<open>await\<close>. The status bar button, the notifications and the HTTP
  request handler do not touch any of these variables and are left out.
\<close>

datatype ServerState = stopped | running_editing | running_paused

record TextDocument =
  uri :: string
  fileName :: string

record ChangeMessage =
  msg_file :: string
  msg_content :: string

record WebSocket =
  client_id :: nat
  readyState :: nat

record WebSocketServer =
  clients :: "WebSocket list"

record Server =
  served_root :: string
  listen_port :: nat
  listening :: bool

text \<open>A pending timeout: its handle, the time it is due and the document its callback holds.\<close>

record Timeout =
  handle :: nat
  due :: nat
  target :: TextDocument

text \<open>
  One run of the \<^verbatim>\<open>wss.clients.forEach\<close> loop: the payload and the clients it was sent
  to, together with the document that \<open>broadcastIfAllowed\<close> was called with.
\<close>

record broadcast =
  source :: TextDocument
  payload :: ChangeMessage
  recipients :: "nat list"

text \<open>
  \<open>debounceTimers\<close> is a JavaScript \<^verbatim>\<open>Map\<close>: an association list with distinct keys in
  insertion order. \<open>buffers\<close> gives the current text of the document with a given URI; a
  \<open>TextDocument\<close> is a reference to it, so \<^verbatim>\<open>getText()\<close> reads the text at the time of
  the call.
\<close>

record engine =
  wss :: "WebSocketServer option"
  httpServer :: "Server option"
  activePort :: "nat option"
  currentRoot :: "string option"
  listenersRegistered :: bool
  debounceTimers :: "(string \<times> nat) list"
  serverState :: ServerState
  timeouts :: "Timeout list"
  nextHandle :: nat
  now :: nat
  buffers :: "string \<Rightarrow> string"
  awaitingPort :: "string list"

definition DEBOUNCE_MS :: nat where
  "DEBOUNCE_MS = 140"

definition initial :: engine where
  "initial = \<lparr>wss = None, httpServer = None, activePort = None, currentRoot = None,
     listenersRegistered = False, debounceTimers = [], serverState = stopped,
     timeouts = [], nextHandle = 0, now = 0, buffers = (\<lambda>u. []), awaitingPort = []\<rparr>"

section \<open>Broadcasting and debouncing\<close>

definition getText :: "engine \<Rightarrow> TextDocument \<Rightarrow> string" where
  "getText s doc = buffers s (uri doc)"

text \<open>
  \<^verbatim>\<open>
  const broadcastIfAllowed = (doc: vscode.TextDocument) => {
    if (!wss) return;
    if (serverState !== "running_editing") return; // only broadcast when editing ON
    const ext = path.extname(doc.fileName).toLowerCase();
    if (![".html", ".htm", ".css"].includes(ext)) return;
    const payload = JSON.stringify({ file: doc.fileName, content: doc.getText() });
    wss.clients.forEach((c) => { if (c.readyState === 1) c.send(payload); });
  };
  \<close>
  The result is the list of broadcasts made by the call: none or one. The payload is kept
  as the object that \<^verbatim>\<open>JSON.stringify\<close> serialises.
\<close>

definition broadcastIfAllowed :: "engine \<Rightarrow> TextDocument \<Rightarrow> broadcast list" where
  "broadcastIfAllowed s doc =
     (case wss s of
        None \<Rightarrow> []
      | Some w \<Rightarrow>
          if serverState s \<noteq> running_editing then []
          else let ext = toLowerCase (extname (fileName doc)) in
            if ext \<notin> set [''.html'', ''.htm'', ''.css''] then []
            else [\<lparr>source = doc,
                   payload = \<lparr>msg_file = fileName doc, msg_content = getText s doc\<rparr>,
                   recipients = map client_id (filter (\<lambda>c. readyState c = 1) (clients w))\<rparr>])"

definition clearTimeout :: "nat \<Rightarrow> engine \<Rightarrow> engine" where
  "clearTimeout h s = s\<lparr>timeouts := filter (\<lambda>t. handle t \<noteq> h) (timeouts s)\<rparr>"

definition setTimeout :: "TextDocument \<Rightarrow> nat \<Rightarrow> engine \<Rightarrow> nat \<times> engine" where
  "setTimeout doc delay s =
     (nextHandle s,
      s\<lparr>timeouts := timeouts s @ [\<lparr>handle = nextHandle s, due = now s + delay, target = doc\<rparr>],
        nextHandle := nextHandle s + 1\<rparr>)"

text \<open>
  \<^verbatim>\<open>
  vscode.workspace.onDidChangeTextDocument((e) => {
    const key = e.document.uri.toString();
    if (debounceTimers.has(key)) clearTimeout(debounceTimers.get(key)!);
    debounceTimers.set(key, setTimeout(() => {
      broadcastIfAllowed(e.document);
      debounceTimers.delete(key);
    }, DEBOUNCE_MS));
  });
  vscode.workspace.onDidSaveTextDocument((doc) => { broadcastIfAllowed(doc); });
  \<close>
\<close>

definition onDidChangeTextDocument :: "TextDocument \<Rightarrow> engine \<Rightarrow> engine" where
  "onDidChangeTextDocument doc s =
     (let key = uri doc;
          s1 = (case map_of (debounceTimers s) key of
                  Some h \<Rightarrow> clearTimeout h s
                | None \<Rightarrow> s);
          (h, s2) = setTimeout doc DEBOUNCE_MS s1
      in s2\<lparr>debounceTimers := AList.update key h (debounceTimers s2)\<rparr>)"

definition timer_callback :: "TextDocument \<Rightarrow> engine \<Rightarrow> engine \<times> broadcast list" where
  "timer_callback doc s =
     (s\<lparr>debounceTimers := AList.delete (uri doc) (debounceTimers s)\<rparr>, broadcastIfAllowed s doc)"

definition onDidSaveTextDocument :: "TextDocument \<Rightarrow> engine \<Rightarrow> engine \<times> broadcast list" where
  "onDidSaveTextDocument doc s = (s, broadcastIfAllowed s doc)"

text \<open>The event loop runs a timeout that is due: it leaves the queue and its callback runs.\<close>

definition fire :: "Timeout \<Rightarrow> engine \<Rightarrow> engine \<times> broadcast list" where
  "fire t s = timer_callback (target t) (clearTimeout (handle t) s)"

fun fire_all :: "Timeout list \<Rightarrow> engine \<Rightarrow> engine \<times> broadcast list" where
  "fire_all [] s = (s, [])"
| "fire_all (t # ts) s =
     (let (s1, l1) = fire t s; (s2, l2) = fire_all ts s1 in (s2, l1 @ l2))"

text \<open>
  Time passes by \<open>d\<close> milliseconds with no other event: the timeouts that fall due run in the
  order of their due times, those with equal due times in the order they were set.
\<close>

definition elapse :: "nat \<Rightarrow> engine \<Rightarrow> engine \<times> broadcast list" where
  "elapse d s =
     (let ready = sort_key due (filter (\<lambda>t. due t \<le> now s + d) (timeouts s));
          (s1, l) = fire_all ready s
      in (s1\<lparr>now := now s + d\<rparr>, l))"

section \<open>Starting and stopping\<close>

text \<open>
  \<^verbatim>\<open>
  async function startServer(root: string): Promise<number | null> {
    if (httpServer) return activePort;
    currentRoot = root;
    activePort = await getFreePort(9090);
    httpServer = http.createServer(...);
    httpServer.listen(activePort, "127.0.0.1", () => { serverState = "running_editing"; ... });
    wss = new WebSocketServer({ server: httpServer, path: "/socket" });
    if (!listenersRegistered) { listenersRegistered = true; ... }
    return activePort;
  }
  \<close>
  The call runs up to its \<^verbatim>\<open>await\<close> (\<open>startServer_enter\<close>), resumes when the port probe
  has resolved (\<open>startServer_resume\<close>), and the callback of \<^verbatim>\<open>listen\<close> runs later still
  (\<open>on_listening\<close>). \<open>startServer\<close> is the whole call when nothing else runs during the
  await: its result, the port or the rejection of the probe, and the state it leaves.
\<close>

datatype entered = Return "nat option" | Await engine

definition startServer_enter :: "string \<Rightarrow> engine \<Rightarrow> entered" where
  "startServer_enter root s =
     (if httpServer s \<noteq> None then Return (activePort s)
      else Await (s\<lparr>currentRoot := Some root\<rparr>))"

definition startServer_resume :: "string \<Rightarrow> nat \<Rightarrow> engine \<Rightarrow> nat option \<times> engine" where
  "startServer_resume root port s =
     (let s1 = s\<lparr>activePort := Some port\<rparr>;
          s2 = s1\<lparr>httpServer := Some \<lparr>served_root = root, listen_port = port, listening = False\<rparr>\<rparr>;
          s3 = s2\<lparr>wss := Some \<lparr>clients = []\<rparr>\<rparr>;
          s4 = (if \<not> listenersRegistered s3 then s3\<lparr>listenersRegistered := True\<rparr> else s3)
      in (activePort s4, s4))"

definition startServer ::
  "(nat \<Rightarrow> nat option) \<Rightarrow> string \<Rightarrow> engine \<Rightarrow> (error + nat option) \<times> engine" where
  "startServer listen root s =
     (case startServer_enter root s of
        Return r \<Rightarrow> (Inr r, s)
      | Await s1 \<Rightarrow>
          (case getFreePort listen 9090 of
             Inl e \<Rightarrow> (Inl e, s1)
           | Inr port \<Rightarrow>
               (let (r, s2) = startServer_resume root port s1 in (Inr r, s2))))"

definition on_listening :: "engine \<Rightarrow> engine" where
  "on_listening s =
     (case httpServer s of
        None \<Rightarrow> s
      | Some srv \<Rightarrow>
          if listening srv then s
          else s\<lparr>httpServer := Some (srv\<lparr>listening := True\<rparr>), serverState := running_editing\<rparr>)"

text \<open>
  \<^verbatim>\<open>
  function stopServer() {
    try { wss?.close(); } catch (_) {}
    try { httpServer?.close(); } catch (_) {}
    wss = null; httpServer = null; activePort = null;
    serverState = "stopped";
    ...
  }
  export function deactivate() {
    try { wss?.close(); } catch (_) {}
    try { httpServer?.close(); } catch (_) {}
    debounceTimers.forEach((t) => clearTimeout(t));
    debounceTimers.clear();
  }
  \<close>
  Whether a \<^verbatim>\<open>close\<close> call throws is decided by the environment: the two flags. An
  exception is a value of type \<open>error\<close>; \<open>try_catch\<close> swallows it as the empty handler does.
\<close>

definition close_call :: "bool \<Rightarrow> 'a \<Rightarrow> error + unit" where
  "close_call throws obj = (if throws then Inl CloseFailed else Inr ())"

definition optional_call :: "'a option \<Rightarrow> ('a \<Rightarrow> error + unit) \<Rightarrow> error + unit" where
  "optional_call obj f = (case obj of None \<Rightarrow> Inr () | Some x \<Rightarrow> f x)"

definition try_catch :: "error + unit \<Rightarrow> error + unit" where
  "try_catch r = (case r of Inl e \<Rightarrow> Inr () | Inr u \<Rightarrow> Inr u)"

definition stopServer :: "bool \<Rightarrow> bool \<Rightarrow> engine \<Rightarrow> error + engine" where
  "stopServer wss_throws http_throws s =
     (case try_catch (optional_call (wss s) (close_call wss_throws)) of
        Inl e \<Rightarrow> Inl e
      | Inr u \<Rightarrow>
          (case try_catch (optional_call (httpServer s) (close_call http_throws)) of
             Inl e \<Rightarrow> Inl e
           | Inr v \<Rightarrow>
               Inr (s\<lparr>wss := None, httpServer := None, activePort := None,
                      serverState := stopped\<rparr>)))"

definition deactivate :: "bool \<Rightarrow> bool \<Rightarrow> engine \<Rightarrow> error + engine" where
  "deactivate wss_throws http_throws s =
     (case try_catch (optional_call (wss s) (close_call wss_throws)) of
        Inl e \<Rightarrow> Inl e
      | Inr u \<Rightarrow>
          (case try_catch (optional_call (httpServer s) (close_call http_throws)) of
             Inl e \<Rightarrow> Inl e
           | Inr v \<Rightarrow>
               Inr ((fold clearTimeout (map snd (debounceTimers s)) s)\<lparr>debounceTimers := []\<rparr>)))"

section \<open>Commands and events\<close>

text \<open>
  \<^verbatim>\<open>
  async (uri?: vscode.Uri) => {          // flashsync.toggle
    if (serverState === "stopped") {
      let root = currentRoot || vscode.workspace.workspaceFolders?.[0]?.uri.fsPath;
      if (!root) { ... pick a folder, or return ... }
      const port = await startServer(root);
      if (!port) return;
      ... open the browser ...
      return;
    }
    if (serverState === "running_editing") { serverState = "running_paused"; ...; return; }
    if (serverState === "running_paused") { serverState = "running_editing"; ...; return; }
  }
  \<close>
  The toggle command starts the server from \<open>stopped\<close>, pauses from \<open>running_editing\<close> and
  resumes from \<open>running_paused\<close>. Its argument is the folder that the workspace (or the
  folder pick) supplies, \<open>None\<close> when there is none. In JavaScript the empty string is
  falsy, as \<^verbatim>\<open>null\<close> and \<^verbatim>\<open>undefined\<close> are. The command
  \<^verbatim>\<open>flashsync.openFile\<close> resolves the folder in the same way and calls \<open>startServer\<close> in
  every state. A call of \<open>startServer\<close> that reaches its \<^verbatim>\<open>await\<close> is recorded in
  \<open>awaitingPort\<close> until the probe is settled (\<open>port_probed\<close>): resolved, the call resumes;
  rejected, the call ends there with the rejection. The three client events are the
  socket library adding a connection to \<^verbatim>\<open>wss.clients\<close>, changing its
  \<^verbatim>\<open>readyState\<close> and removing it.
\<close>

definition truthy :: "string option \<Rightarrow> bool" where
  "truthy r = (case r of None \<Rightarrow> False | Some x \<Rightarrow> x \<noteq> [])"

definition resolve_root :: "engine \<Rightarrow> string option \<Rightarrow> string option" where
  "resolve_root s ws = (if truthy (currentRoot s) then currentRoot s else ws)"

definition call_startServer :: "string \<Rightarrow> engine \<Rightarrow> engine" where
  "call_startServer root s =
     (case startServer_enter root s of
        Return r \<Rightarrow> s
      | Await s1 \<Rightarrow> s1\<lparr>awaitingPort := awaitingPort s1 @ [root]\<rparr>)"

definition toggle :: "string option \<Rightarrow> engine \<Rightarrow> engine" where
  "toggle ws s =
     (case serverState s of
        stopped \<Rightarrow>
          (case resolve_root s ws of
             None \<Rightarrow> s
           | Some root \<Rightarrow> if root = [] then s else call_startServer root s)
      | running_editing \<Rightarrow> s\<lparr>serverState := running_paused\<rparr>
      | running_paused \<Rightarrow> s\<lparr>serverState := running_editing\<rparr>)"

definition openFile :: "string option \<Rightarrow> engine \<Rightarrow> engine" where
  "openFile ws s =
     (case resolve_root s ws of
        None \<Rightarrow> s
      | Some root \<Rightarrow> if root = [] then s else call_startServer root s)"

definition port_probed :: "(nat \<Rightarrow> nat option) \<Rightarrow> engine \<Rightarrow> engine" where
  "port_probed listen s =
     (case awaitingPort s of
        [] \<Rightarrow> s
      | root # rest \<Rightarrow>
          (case getFreePort listen 9090 of
             Inl e \<Rightarrow> s\<lparr>awaitingPort := rest\<rparr>
           | Inr port \<Rightarrow> snd (startServer_resume root port (s\<lparr>awaitingPort := rest\<rparr>))))"

definition client_open :: "nat \<Rightarrow> engine \<Rightarrow> engine" where
  "client_open c s =
     (case wss s of
        None \<Rightarrow> s
      | Some w \<Rightarrow>
          s\<lparr>wss := Some (w\<lparr>clients := filter (\<lambda>x. client_id x \<noteq> c) (clients w)
                                        @ [\<lparr>client_id = c, readyState = 1\<rparr>]\<rparr>)\<rparr>)"

definition client_state :: "nat \<Rightarrow> nat \<Rightarrow> engine \<Rightarrow> engine" where
  "client_state c st s =
     (case wss s of
        None \<Rightarrow> s
      | Some w \<Rightarrow>
          s\<lparr>wss := Some (w\<lparr>clients :=
                 map (\<lambda>x. if client_id x = c then x\<lparr>readyState := st\<rparr> else x) (clients w)\<rparr>)\<rparr>)"

definition client_close :: "nat \<Rightarrow> engine \<Rightarrow> engine" where
  "client_close c s =
     (case wss s of
        None \<Rightarrow> s
      | Some w \<Rightarrow> s\<lparr>wss := Some (w\<lparr>clients := filter (\<lambda>x. client_id x \<noteq> c) (clients w)\<rparr>)\<rparr>)"

text \<open>
  What can happen to the engine. An edit changes the text of the document and then
  notifies the change handler; the two handlers exist once \<open>listenersRegistered\<close> is set.
\<close>

datatype event =
    Toggle "string option"
  | OpenFile "string option"
  | PortProbed "nat \<Rightarrow> nat option"
  | Listening
  | Stop bool bool
  | Deactivate bool bool
  | Edit TextDocument string
  | Save TextDocument
  | Elapse nat
  | ClientOpen nat
  | ClientState nat nat
  | ClientClose nat

fun step :: "event \<Rightarrow> engine \<Rightarrow> engine \<times> broadcast list" where
  "step (Toggle ws) s = (toggle ws s, [])"
| "step (OpenFile ws) s = (openFile ws s, [])"
| "step (PortProbed listen) s = (port_probed listen s, [])"
| "step Listening s = (on_listening s, [])"
| "step (Stop a b) s = (case stopServer a b s of Inl e \<Rightarrow> (s, []) | Inr s1 \<Rightarrow> (s1, []))"
| "step (Deactivate a b) s = (case deactivate a b s of Inl e \<Rightarrow> (s, []) | Inr s1 \<Rightarrow> (s1, []))"
| "step (Edit doc txt) s =
     (let s1 = s\<lparr>buffers := (buffers s)(uri doc := txt)\<rparr>
      in if listenersRegistered s1 then (onDidChangeTextDocument doc s1, []) else (s1, []))"
| "step (Save doc) s =
     (if listenersRegistered s then onDidSaveTextDocument doc s else (s, []))"
| "step (Elapse d) s = elapse d s"
| "step (ClientOpen c) s = (client_open c s, [])"
| "step (ClientState c st) s = (client_state c st s, [])"
| "step (ClientClose c) s = (client_close c s, [])"

fun run :: "event list \<Rightarrow> engine \<Rightarrow> engine \<times> broadcast list" where
  "run [] s = (s, [])"
| "run (e # es) s =
     (let (s1, l1) = step e s; (s2, l2) = run es s1 in (s2, l1 @ l2))"


text \<open>
  The bookkeeping of the timers: handles are fresh and distinct, every pending timeout is
  the one that \<open>debounceTimers\<close> records for its document and is due within the quiet window,
  and every key of \<open>debounceTimers\<close> has a pending timeout.
\<close>

definition timers_ok :: "engine \<Rightarrow> bool" where
  "timers_ok s \<longleftrightarrow>
     distinct (map handle (timeouts s))
     \<and> list_all (\<lambda>t. handle t < nextHandle s
                    \<and> due t \<le> now s + DEBOUNCE_MS
                    \<and> map_of (debounceTimers s) (uri (target t)) = Some (handle t)) (timeouts s)
     \<and> list_all (\<lambda>k. list_ex (\<lambda>t. uri (target t) = k) (timeouts s)) (map fst (debounceTimers s))"

section \<open>A running session\<close>

text \<open>
  A concrete session used to evaluate the model: the state reached from \<open>initial\<close> by the
  toggle command, a successful port probe, the listening callback and one client (see
  \<open>example_session_reached\<close>), and a document that session serves. On \<open>free_host\<close> every
  port can be bound, on \<open>busy_host\<close> none.
\<close>

definition free_host :: "nat \<Rightarrow> nat option" where
  "free_host p = Some (if p = 0 then 49152 else p)"

definition busy_host :: "nat \<Rightarrow> nat option" where
  "busy_host p = None"

definition example_doc :: TextDocument where
  "example_doc = \<lparr>uri = ''file:///w/index.html'', fileName = ''/w/index.html''\<rparr>"

definition script_doc :: TextDocument where
  "script_doc = \<lparr>uri = ''file:///w/app.js'', fileName = ''/w/app.js''\<rparr>"

definition example_session :: engine where
  "example_session =
     \<lparr>wss = Some \<lparr>clients = [\<lparr>client_id = 1, readyState = 1\<rparr>]\<rparr>,
      httpServer = Some \<lparr>served_root = ''/w'', listen_port = 9090, listening = True\<rparr>,
      activePort = Some 9090, currentRoot = Some ''/w'', listenersRegistered = True,
      debounceTimers = [], serverState = running_editing, timeouts = [], nextHandle = 0,
      now = 0, buffers = (\<lambda>u. []), awaitingPort = []\<rparr>"

section \<open>Facts about the string operations\<close>

lemma str_includes_iff: "str_includes s p \<longleftrightarrow> (\<exists>a b. s = a @ p @ b)"
proof (induction s)
  case Nil
  then show ?case by auto
next
  case (Cons c cs)
  show ?case
  proof
    assume "str_includes (c # cs) p"
    then consider "prefix p (c # cs)" | "str_includes cs p" by auto
    then show "\<exists>a b. c # cs = a @ p @ b"
    proof cases
      case 1
      then obtain b where "c # cs = p @ b" by (auto simp: prefix_def)
      then have "c # cs = [] @ p @ b" by simp
      then show ?thesis by blast
    next
      case 2
      with Cons.IH obtain a b where "cs = a @ p @ b" by blast
      then have "c # cs = (c # a) @ p @ b" by simp
      then show ?thesis by blast
    qed
  next
    assume "\<exists>a b. c # cs = a @ p @ b"
    then obtain a b where ab: "c # cs = a @ p @ b" by blast
    show "str_includes (c # cs) p"
    proof (cases a)
      case Nil
      with ab have "prefix p (c # cs)" by (simp add: prefix_def)
      then show ?thesis by simp
    next
      case (Cons x a')
      with ab have "cs = a' @ p @ b" by simp
      with Cons.IH have "str_includes cs p" by blast
      then show ?thesis by simp
    qed
  qed
qed

lemma str_includes_appendI: "str_includes (a @ p @ b) p"
  by (auto simp: str_includes_iff)

lemma not_includes_left: "\<not> str_includes (a @ b) p \<Longrightarrow> \<not> str_includes a p"
proof
  assume n: "\<not> str_includes (a @ b) p" and "str_includes a p"
  then obtain u v where "a = u @ p @ v" by (auto simp: str_includes_iff)
  then have "a @ b = u @ p @ (v @ b)" by simp
  then have "str_includes (a @ b) p" unfolding str_includes_iff by blast
  with n show False by simp
qed

lemma not_includes_right: "\<not> str_includes (a @ b) p \<Longrightarrow> \<not> str_includes b p"
proof
  assume n: "\<not> str_includes (a @ b) p" and "str_includes b p"
  then obtain u v where "b = u @ p @ v" by (auto simp: str_includes_iff)
  then have "a @ b = (a @ u) @ p @ v" by simp
  then have "str_includes (a @ b) p" unfolding str_includes_iff by blast
  with n show False by simp
qed

lemma occurrences_zero_iff: "occurrences s p = 0 \<longleftrightarrow> \<not> str_includes s p"
  by (induction s) auto

lemma occurrences_pos_iff: "0 < occurrences s p \<longleftrightarrow> str_includes s p"
  using occurrences_zero_iff [of s p] by auto

text \<open>The first occurrence of the pattern is the one that \<open>str_replace\<close> rewrites.\<close>

lemma str_replace_first:
  "str_includes s p \<Longrightarrow>
     \<exists>a b. s = a @ p @ b \<and> str_replace s p r = a @ r @ b
          \<and> (\<forall>a' b'. s = a' @ p @ b' \<longrightarrow> length a \<le> length a')"
proof (induction s)
  case Nil
  then show ?case by simp
next
  case (Cons c cs)
  show ?case
  proof (cases "prefix p (c # cs)")
    case True
    then obtain b where b: "c # cs = p @ b" by (auto simp: prefix_def)
    then have "drop (length p) (c # cs) = b" by simp
    with True have "str_replace (c # cs) p r = [] @ r @ b" by simp
    moreover from b have "c # cs = [] @ p @ b" by simp
    ultimately show ?thesis by (metis le0 list.size(3))
  next
    case False
    with Cons.prems have "str_includes cs p" by simp
    with Cons.IH obtain a b where ab: "cs = a @ p @ b" "str_replace cs p r = a @ r @ b"
      and least: "\<forall>a' b'. cs = a' @ p @ b' \<longrightarrow> length a \<le> length a'" by blast
    have 1: "c # cs = (c # a) @ p @ b" using ab by simp
    have 2: "str_replace (c # cs) p r = (c # a) @ r @ b" using False ab by simp
    have 3: "length (c # a) \<le> length a'" if eq: "c # cs = a' @ p @ b'" for a' b'
    proof (cases a')
      case Nil
      with eq have "prefix p (c # cs)" by (simp add: prefix_def)
      with False show ?thesis by simp
    next
      case (Cons x a'')
      with eq have "cs = a'' @ p @ b'" by simp
      with least have "length a \<le> length a''" by blast
      with Cons show ?thesis by simp
    qed
    from 1 2 3 show ?thesis by blast
  qed
qed

text \<open>A character that does not occur in the pattern separates the occurrences.\<close>

lemma prefix_append_sep:
  assumes "c \<notin> set p"
  shows "prefix p (u @ c # b) \<longleftrightarrow> prefix p u"
proof
  assume "prefix p (u @ c # b)"
  then have "prefix p u \<or> (\<exists>w. p = u @ w \<and> prefix w (c # b))"
    by (simp add: prefix_append)
  then show "prefix p u"
  proof
    assume "prefix p u"
    then show ?thesis .
  next
    assume "\<exists>w. p = u @ w \<and> prefix w (c # b)"
    then obtain w where w: "p = u @ w" "prefix w (c # b)" by blast
    show ?thesis
    proof (cases w)
      case Nil
      with w show ?thesis by simp
    next
      case (Cons x w')
      with w have "x = c" by simp
      with Cons w assms show ?thesis by simp
    qed
  qed
next
  assume "prefix p u"
  then show "prefix p (u @ c # b)" by (simp add: prefix_append)
qed

lemma occurrences_sep_char:
  assumes "c \<notin> set p"
  shows "occurrences (a @ c # b) p = occurrences a p + occurrences b p"
proof (induction a)
  case Nil
  show ?case using assms by (cases p) auto
next
  case (Cons x a)
  have "prefix p (x # a @ c # b) \<longleftrightarrow> prefix p (x # a)"
    using prefix_append_sep [OF assms, of "x # a" b] by simp
  with Cons show ?case by simp
qed

lemma occurrences_sep:
  assumes "p \<noteq> []" and "sep \<noteq> []" and "set sep \<inter> set p = {}"
  shows "occurrences (a @ sep @ b) p = occurrences a p + occurrences b p"
  using assms(2,3)
proof (induction sep arbitrary: a)
  case Nil
  then show ?case by simp
next
  case (Cons c sep)
  from Cons.prems have c: "c \<notin> set p" by auto
  show ?case
  proof (cases "sep = []")
    case True
    with c show ?thesis by (simp add: occurrences_sep_char)
  next
    case False
    with Cons.prems have "occurrences ([] @ sep @ b) p = occurrences [] p + occurrences b p"
      by (intro Cons.IH) auto
    with assms(1) have "occurrences (sep @ b) p = occurrences b p" by simp
    with c show ?thesis by (simp add: occurrences_sep_char)
  qed
qed

lemma toString_digits: "toString n \<noteq> [] \<and> set (toString n) \<subseteq> set ''0123456789''"
proof (induction n rule: toString.induct)
  case (1 n)
  show ?case
  proof (cases "n < 10")
    case True
    then have "''0123456789'' ! n \<in> set ''0123456789''"
      by (intro nth_mem) simp
    with True show ?thesis by (subst (1 2) toString.simps) simp
  next
    case False
    have "n mod 10 < 10" by simp
    then have "''0123456789'' ! (n mod 10) \<in> set ''0123456789''"
      by (intro nth_mem) simp
    with False 1 show ?thesis by (subst (1 2) toString.simps) simp
  qed
qed

lemma script_tag_no_dollar: "CHR ''$'' \<notin> set (script_tag port)"
  using toString_digits [of port] by (auto simp: script_tag_def)

lemma script_tag_occurrences: "occurrences (script_tag port) ''flashsync.js'' = 1"
proof -
  let ?P = "''flashsync.js''"
  let ?A = "''<script src='' @ [CHR 0x22] @ ''http://127.0.0.1:''"
  let ?B = "''/flashsync.js'' @ [CHR 0x22] @ '' defer></script>''"
  have sep: "set (toString port) \<inter> set ?P = {}" "toString port \<noteq> []"
    using toString_digits [of port] by auto
  have mid: "occurrences (?A @ toString port @ ?B) ?P = occurrences ?A ?P + occurrences ?B ?P"
    using sep by (intro occurrences_sep) auto
  have "occurrences ?A ?P = 0" by simp
  moreover have "occurrences ?B ?P = 1" by simp
  ultimately have m: "occurrences (?A @ toString port @ ?B) ?P = 1" using mid by simp
  have "occurrences ((?A @ toString port @ ?B) @ CHR 0x0A # []) ?P
          = occurrences (?A @ toString port @ ?B) ?P + occurrences [] ?P"
    by (rule occurrences_sep_char) simp
  with m have r: "occurrences ((?A @ toString port @ ?B) @ [CHR 0x0A]) ?P = 1" by simp
  have "occurrences ([] @ CHR 0x0A # ((?A @ toString port @ ?B) @ [CHR 0x0A])) ?P
          = occurrences [] ?P + occurrences ((?A @ toString port @ ?B) @ [CHR 0x0A]) ?P"
    by (rule occurrences_sep_char) simp
  with r have "occurrences (CHR 0x0A # ((?A @ toString port @ ?B) @ [CHR 0x0A])) ?P = 1" by simp
  moreover have "script_tag port = CHR 0x0A # ((?A @ toString port @ ?B) @ [CHR 0x0A])"
    by (simp add: script_tag_def)
  ultimately show ?thesis by simp
qed

lemma script_tag_frame: "\<exists>m. script_tag port = CHR 0x0A # m @ [CHR 0x0A]"
  by (simp add: script_tag_def)

text \<open>Placing the tag between two parts free of the file name yields exactly one reference.\<close>

lemma occurrences_with_tag:
  assumes "\<not> str_includes a ''flashsync.js''" and "\<not> str_includes b ''flashsync.js''"
  shows "occurrences (a @ script_tag port @ b) ''flashsync.js'' = 1"
proof -
  let ?P = "''flashsync.js''"
  obtain m where m: "script_tag port = CHR 0x0A # m @ [CHR 0x0A]"
    using script_tag_frame by blast
  have a0: "occurrences a ?P = 0" and b0: "occurrences b ?P = 0"
    using assms by (simp_all add: occurrences_zero_iff)
  have t1: "occurrences (CHR 0x0A # m @ [CHR 0x0A]) ?P = 1"
    using script_tag_occurrences [of port] m by simp
  have "occurrences ([] @ CHR 0x0A # (m @ [CHR 0x0A])) ?P
          = occurrences [] ?P + occurrences (m @ [CHR 0x0A]) ?P"
    by (rule occurrences_sep_char) simp
  with t1 have t2: "occurrences (m @ [CHR 0x0A]) ?P = 1" by simp
  have "occurrences (m @ CHR 0x0A # []) ?P = occurrences m ?P + occurrences [] ?P"
    by (rule occurrences_sep_char) simp
  with t2 have t3: "occurrences m ?P = 1" by simp
  have "occurrences (a @ CHR 0x0A # (m @ CHR 0x0A # b)) ?P
          = occurrences a ?P + occurrences (m @ CHR 0x0A # b) ?P"
    by (rule occurrences_sep_char) simp
  moreover have "occurrences (m @ CHR 0x0A # b) ?P = occurrences m ?P + occurrences b ?P"
    by (rule occurrences_sep_char) simp
  ultimately have "occurrences (a @ CHR 0x0A # (m @ CHR 0x0A # b)) ?P = 1"
    using a0 b0 t3 by simp
  moreover have "a @ script_tag port @ b = a @ CHR 0x0A # (m @ CHR 0x0A # b)"
    using m by simp
  ultimately show ?thesis by simp
qed

text \<open>What \<open>injectScript\<close> does in each of its three placing branches.\<close>

lemma inject_before:
  assumes "\<not> str_includes html ''flashsync.js''" and "str_includes html close"
    and "injectScript html port = str_replace html close (script_tag port @ close)"
  shows "\<exists>a b. html = a @ close @ b
           \<and> (\<forall>a' b'. html = a' @ close @ b' \<longrightarrow> length a \<le> length a')
           \<and> injectScript html port = a @ script_tag port @ close @ b"
proof -
  from str_replace_first [OF assms(2), of "script_tag port @ close"]
  obtain a b where ab: "html = a @ close @ b"
      "str_replace html close (script_tag port @ close) = a @ (script_tag port @ close) @ b"
      "\<forall>a' b'. html = a' @ close @ b' \<longrightarrow> length a \<le> length a'"
    by blast
  with assms(3) have "injectScript html port = a @ script_tag port @ close @ b" by simp
  with ab show ?thesis by blast
qed

lemma inject_head:
  assumes "\<not> str_includes html ''flashsync.js''" and "str_includes html ''</head>''"
  shows "\<exists>a b. html = a @ ''</head>'' @ b
           \<and> (\<forall>a' b'. html = a' @ ''</head>'' @ b' \<longrightarrow> length a \<le> length a')
           \<and> injectScript html port = a @ script_tag port @ ''</head>'' @ b"
  using assms by (intro inject_before) (simp_all add: injectScript_def)

lemma inject_body:
  assumes "\<not> str_includes html ''flashsync.js''" and "\<not> str_includes html ''</head>''"
    and "str_includes html ''</body>''"
  shows "\<exists>a b. html = a @ ''</body>'' @ b
           \<and> (\<forall>a' b'. html = a' @ ''</body>'' @ b' \<longrightarrow> length a \<le> length a')
           \<and> injectScript html port = a @ script_tag port @ ''</body>'' @ b"
  using assms by (intro inject_before) (simp_all add: injectScript_def)

lemma inject_append:
  assumes "\<not> str_includes html ''flashsync.js''" and "\<not> str_includes html ''</head>''"
    and "\<not> str_includes html ''</body>''"
  shows "injectScript html port = html @ script_tag port"
  using assms by (simp add: injectScript_def)

lemma inject_placement:
  assumes "\<not> str_includes html ''flashsync.js''"
  shows "\<exists>a b. html = a @ b \<and> injectScript html port = a @ script_tag port @ b"
proof -
  consider (h) "str_includes html ''</head>''"
    | (b) "\<not> str_includes html ''</head>''" "str_includes html ''</body>''"
    | (n) "\<not> str_includes html ''</head>''" "\<not> str_includes html ''</body>''"
    by blast
  then show ?thesis
  proof cases
    case h
    from inject_head [OF assms h, of port] obtain a b where
      "html = a @ ''</head>'' @ b" "injectScript html port = a @ script_tag port @ ''</head>'' @ b"
      by blast
    then show ?thesis by blast
  next
    case b
    from inject_body [OF assms b, of port] obtain a c where
      "html = a @ ''</body>'' @ c" "injectScript html port = a @ script_tag port @ ''</body>'' @ c"
      by blast
    then show ?thesis by blast
  next
    case n
    from inject_append [OF assms n, of port]
    have "html = html @ []" "injectScript html port = html @ script_tag port @ []" by simp_all
    then show ?thesis by blast
  qed
qed

lemma inject_one_reference:
  assumes "\<not> str_includes html ''flashsync.js''"
  shows "occurrences (injectScript html port) ''flashsync.js'' = 1"
proof -
  from inject_placement [OF assms, of port] obtain a b where
    ab: "html = a @ b" "injectScript html port = a @ script_tag port @ b" by blast
  from assms ab(1) have "\<not> str_includes a ''flashsync.js''" "\<not> str_includes b ''flashsync.js''"
    using not_includes_left not_includes_right by blast+
  with ab(2) show ?thesis by (simp add: occurrences_with_tag)
qed

section \<open>Script injection: the claims\<close>

text \<open>
  C2. \<open>injectScript\<close> is idempotent. A document that already contains the bootstrap file
  name \<^verbatim>\<open>flashsync.js\<close> is returned unchanged. For a document that does not contain
  it, the result contains the file name at exactly one position, and injecting again (for
  any port) returns that result unchanged: it is a fixed point.
\<close>

theorem injectScript_idempotent:
  "(str_includes html ''flashsync.js'' \<longrightarrow> injectScript html port = html)
   \<and> (\<not> str_includes html ''flashsync.js'' \<longrightarrow>
        occurrences (injectScript html port) ''flashsync.js'' = 1
        \<and> injectScript (injectScript html port) port' = injectScript html port)"
proof (intro conjI impI)
  assume "str_includes html ''flashsync.js''"
  then show "injectScript html port = html" by (simp add: injectScript_def)
next
  assume "\<not> str_includes html ''flashsync.js''"
  then show "occurrences (injectScript html port) ''flashsync.js'' = 1"
    by (rule inject_one_reference)
next
  assume "\<not> str_includes html ''flashsync.js''"
  then have "0 < occurrences (injectScript html port) ''flashsync.js''"
    by (simp add: inject_one_reference)
  then have "str_includes (injectScript html port) ''flashsync.js''"
    by (simp add: occurrences_pos_iff)
  then show "injectScript (injectScript html port) port' = injectScript html port"
    by (simp add: injectScript_def)
qed

theorem injectScript_idempotent_witness:
  "str_includes ''<script src=flashsync.js></script>'' ''flashsync.js''
   \<and> injectScript ''<script src=flashsync.js></script>'' 9090 = ''<script src=flashsync.js></script>''
   \<and> \<not> str_includes ''<body></body>'' ''flashsync.js''
   \<and> occurrences (injectScript ''<body></body>'' 9090) ''flashsync.js'' = 1
   \<and> injectScript (injectScript ''<body></body>'' 9090) 9091 = injectScript ''<body></body>'' 9090"
  using injectScript_idempotent [of "''<script src=flashsync.js></script>''" 9090 9091]
    injectScript_idempotent [of "''<body></body>''" 9090 9091]
  by simp

text \<open>
  C6. For a document without the bootstrap file name the tag is placed by a fixed fallback
  chain, and exactly one placement occurs. If the document contains \<^verbatim>\<open></head>\<close>, the tag
  goes immediately before its first occurrence; otherwise, if it contains \<^verbatim>\<open></body>\<close>,
  immediately before the first occurrence of that; otherwise it is appended. The closing
  tags are matched as these exact lower-case strings, as in the source. In every case the
  result is the document with one copy of the tag inserted.
\<close>

theorem injectScript_fallback_chain:
  assumes "\<not> str_includes html ''flashsync.js''"
  shows "(str_includes html ''</head>'' \<longrightarrow>
            (\<exists>a b. html = a @ ''</head>'' @ b
               \<and> (\<forall>a' b'. html = a' @ ''</head>'' @ b' \<longrightarrow> length a \<le> length a')
               \<and> injectScript html port = a @ script_tag port @ ''</head>'' @ b))
       \<and> (\<not> str_includes html ''</head>'' \<and> str_includes html ''</body>'' \<longrightarrow>
            (\<exists>a b. html = a @ ''</body>'' @ b
               \<and> (\<forall>a' b'. html = a' @ ''</body>'' @ b' \<longrightarrow> length a \<le> length a')
               \<and> injectScript html port = a @ script_tag port @ ''</body>'' @ b))
       \<and> (\<not> str_includes html ''</head>'' \<and> \<not> str_includes html ''</body>'' \<longrightarrow>
            injectScript html port = html @ script_tag port)
       \<and> (\<exists>a b. html = a @ b \<and> injectScript html port = a @ script_tag port @ b)"
  using inject_head [OF assms, of port] inject_body [OF assms, of port]
    inject_append [OF assms, of port] inject_placement [OF assms, of port]
  by blast

theorem injectScript_fallback_chain_witness:
  "\<not> str_includes ''<html><head></head><body></body></html>'' ''flashsync.js''
   \<and> injectScript ''<html><head></head><body></body></html>'' 9090
         = ''<html><head>'' @ script_tag 9090 @ ''</head><body></body></html>''
   \<and> \<not> str_includes ''<body></body>'' ''flashsync.js''
   \<and> injectScript ''<body></body>'' 9090 = ''<body>'' @ script_tag 9090 @ ''</body>''
   \<and> \<not> str_includes ''plain'' ''flashsync.js''
   \<and> injectScript ''plain'' 9090 = ''plain'' @ script_tag 9090"
proof -
  have 1: "\<not> str_includes ''<html><head></head><body></body></html>'' ''flashsync.js''"
    by simp
  have 2: "\<not> str_includes ''<body></body>'' ''flashsync.js''" by simp
  have 3: "\<not> str_includes ''plain'' ''flashsync.js''" by simp
  from injectScript_fallback_chain [OF 1, of 9090] injectScript_fallback_chain [OF 2, of 9090]
    injectScript_fallback_chain [OF 3, of 9090] 1 2 3
  show ?thesis by (simp add: injectScript_def)
qed

text \<open>
  C10. The test for an existing reference is a plain substring test: a document that contains
  the characters \<^verbatim>\<open>flashsync.js\<close> anywhere is returned completely unchanged, so a
  document that held no script element before holds none afterwards.
\<close>

theorem injectScript_substring_test:
  assumes "str_includes html ''flashsync.js''"
  shows "injectScript html port = html
       \<and> (\<not> str_includes html ''<script'' \<longrightarrow> \<not> str_includes (injectScript html port) ''<script'')"
  using assms by (simp add: injectScript_def)

theorem injectScript_substring_test_witness:
  "str_includes ''<p>see flashsync.js</p><!-- flashsync.js -->'' ''flashsync.js''
   \<and> \<not> str_includes ''<p>see flashsync.js</p><!-- flashsync.js -->'' ''<script''
   \<and> injectScript ''<p>see flashsync.js</p><!-- flashsync.js -->'' 9090
         = ''<p>see flashsync.js</p><!-- flashsync.js -->''
   \<and> \<not> str_includes (injectScript ''<p>see flashsync.js</p><!-- flashsync.js -->'' 9090) ''<script''"
proof -
  have h: "str_includes ''<p>see flashsync.js</p><!-- flashsync.js -->'' ''flashsync.js''"
    by simp
  have n: "\<not> str_includes ''<p>see flashsync.js</p><!-- flashsync.js -->'' ''<script''"
    by simp
  from injectScript_substring_test [OF h, of 9090] h n show ?thesis by simp
qed

section \<open>Port allocation: the claim\<close>

lemma getFreePort_skip:
  "start + k \<le> 65535 \<Longrightarrow> listen (start + k) = Some q \<Longrightarrow>
   (\<And>j. j < k \<Longrightarrow> listen (start + j) = None) \<Longrightarrow>
     getFreePort listen start = Inr q"
proof (induction k arbitrary: start)
  case 0
  then show ?case by (subst getFreePort.simps) simp
next
  case (Suc k)
  have b: "listen start = None" using Suc.prems(3) [of 0] by simp
  have "getFreePort listen (start + 1) = Inr q"
  proof (rule Suc.IH)
    show "start + 1 + k \<le> 65535" using Suc.prems(1) by simp
    show "listen (start + 1 + k) = Some q"
      using Suc.prems(2) by (simp add: add.commute add.left_commute)
    show "listen (start + 1 + j) = None" if "j < k" for j
      using Suc.prems(3) [of "Suc j"] that by (simp add: add.commute add.left_commute)
  qed
  with b Suc.prems(1) show ?case by (subst getFreePort.simps) simp
qed

lemma getFreePort_sound:
  "getFreePort listen start = Inr q \<Longrightarrow>
     \<exists>r. start \<le> r \<and> r \<le> 65535 \<and> listen r = Some q
        \<and> (\<forall>p. start \<le> p \<and> p < r \<longrightarrow> listen p = None)"
proof (induction listen start rule: getFreePort.induct)
  case (1 listen start)
  from "1.prems" have range: "\<not> 65536 \<le> start"
    by (subst (asm) getFreePort.simps) (simp split: if_splits)
  show ?case
  proof (cases "listen start")
    case (Some port)
    with "1.prems" range have "port = q" by (subst (asm) getFreePort.simps) simp
    with Some range have "start \<le> start \<and> start \<le> 65535 \<and> listen start = Some q
        \<and> (\<forall>p. start \<le> p \<and> p < start \<longrightarrow> listen p = None)" by auto
    then show ?thesis by blast
  next
    case None
    with "1.prems" range have "getFreePort listen (start + 1) = Inr q"
      by (subst (asm) getFreePort.simps) simp
    from "1.IH" [OF range None this] obtain r where
      r: "start + 1 \<le> r" "r \<le> 65535" "listen r = Some q"
        "\<forall>p. start + 1 \<le> p \<and> p < r \<longrightarrow> listen p = None" by blast
    have "listen p = None" if "start \<le> p" "p < r" for p
    proof (cases "p = start")
      case True
      with None show ?thesis by simp
    next
      case False
      with that have "start + 1 \<le> p" by simp
      with r(4) that show ?thesis by blast
    qed
    with r have "start \<le> r \<and> r \<le> 65535 \<and> listen r = Some q
        \<and> (\<forall>p. start \<le> p \<and> p < r \<longrightarrow> listen p = None)" by simp
    then show ?thesis by blast
  qed
qed

lemma getFreePort_exhausted:
  "start \<le> 65536 \<Longrightarrow> (\<And>p. start \<le> p \<Longrightarrow> p \<le> 65535 \<Longrightarrow> listen p = None) \<Longrightarrow>
     getFreePort listen start = Inl (ERR_SOCKET_BAD_PORT 65536)"
proof (induction listen start rule: getFreePort.induct)
  case (1 listen start)
  show ?case
  proof (cases "start = 65536")
    case True
    then show ?thesis by (subst getFreePort.simps) simp
  next
    case False
    with "1.prems"(1) have range: "\<not> 65536 \<le> start" by simp
    then have none: "listen start = None" using "1.prems"(2) [of start] by simp
    have "getFreePort listen (start + 1) = Inl (ERR_SOCKET_BAD_PORT 65536)"
    proof (rule "1.IH" [OF range none])
      show "start + 1 \<le> 65536" using range by simp
      show "listen p = None" if "start + 1 \<le> p" "p \<le> 65535" for p
        using "1.prems"(2) [of p] that by simp
    qed
    with range none show ?thesis by (subst getFreePort.simps) simp
  qed
qed

text \<open>
  The claim C8 as stated fails. The attempts are bounded by the range of ports: with the
  preferred port and every port above it busy, the probe does not go on until a bind succeeds
  and returns no port; after port 65535 the promise is rejected. And a request for port 0,
  which is free, returns the port the system assigns, not 0.
\<close>

theorem getFreePort_unbounded_counterexample:
  "busy_host 9090 = None
   \<and> getFreePort busy_host 9090 = Inl (ERR_SOCKET_BAD_PORT 65536)
   \<and> free_host 0 = Some 49152
   \<and> getFreePort free_host 0 = Inr 49152"
proof -
  have "getFreePort busy_host 9090 = Inl (ERR_SOCKET_BAD_PORT 65536)"
    by (rule getFreePort_exhausted) (simp_all add: busy_host_def)
  moreover have "getFreePort free_host 0 = Inr 49152"
    by (subst getFreePort.simps) (simp add: free_host_def)
  ultimately show ?thesis by (simp add: busy_host_def free_host_def)
qed

text \<open>
  C8, amended. Port allocation over the outcome \<open>listen\<close> of binding each port. For a
  preferred port up to 65535 that can be bound, the probe returns what the bind reports:
  the preferred port itself, on a host that reports the port it was asked for. A preferred
  port that is busy makes the probe continue at \<open>preferred + 1\<close>. Whenever some port from
  the preferred one to 65535 can be bound, the probe returns, and it returns the bind of the
  smallest such port: every port from the preferred one up to it is busy, so it differs
  from a busy preferred port. The attempts end at port 65535: when every port from the
  preferred one to 65535 is busy, the promise is rejected, as it is at once for a number
  beyond 65535. For a preferred port other than 0, on a host that reports the port it was
  asked for, a result is the smallest free port at or above the preferred one.
\<close>

theorem getFreePort_smallest_free:
  "(preferred \<le> 65535 \<and> listen preferred = Some q \<longrightarrow> getFreePort listen preferred = Inr q)
   \<and> (preferred \<le> 65535 \<and> listen preferred = None \<longrightarrow>
        getFreePort listen preferred = getFreePort listen (preferred + 1))
   \<and> ((\<exists>r. preferred \<le> r \<and> r \<le> 65535 \<and> listen r \<noteq> None) \<longrightarrow>
        (\<exists>r port. getFreePort listen preferred = Inr port
             \<and> preferred \<le> r \<and> r \<le> 65535 \<and> listen r = Some port
             \<and> (\<forall>p. preferred \<le> p \<and> p < r \<longrightarrow> listen p = None)
             \<and> (listen preferred = None \<longrightarrow> r \<noteq> preferred)))
   \<and> (preferred \<le> 65536 \<and> (\<forall>p. preferred \<le> p \<and> p \<le> 65535 \<longrightarrow> listen p = None) \<longrightarrow>
        getFreePort listen preferred = Inl (ERR_SOCKET_BAD_PORT 65536))
   \<and> (65536 \<le> preferred \<longrightarrow> getFreePort listen preferred = Inl (ERR_SOCKET_BAD_PORT preferred))
   \<and> (0 < preferred \<and> (\<forall>p r. 0 < p \<and> listen p = Some r \<longrightarrow> r = p)
        \<and> getFreePort listen preferred = Inr port' \<longrightarrow>
        preferred \<le> port' \<and> port' \<le> 65535 \<and> listen port' = Some port'
        \<and> (\<forall>p. preferred \<le> p \<and> p < port' \<longrightarrow> listen p = None))"
proof -
  have 1: "getFreePort listen preferred = Inr q"
    if "preferred \<le> 65535 \<and> listen preferred = Some q"
    using that by (subst getFreePort.simps) simp
  have 2: "getFreePort listen preferred = getFreePort listen (preferred + 1)"
    if "preferred \<le> 65535 \<and> listen preferred = None"
    using that by (subst getFreePort.simps) simp
  have 3: "\<exists>r port. getFreePort listen preferred = Inr port
             \<and> preferred \<le> r \<and> r \<le> 65535 \<and> listen r = Some port
             \<and> (\<forall>p. preferred \<le> p \<and> p < r \<longrightarrow> listen p = None)
             \<and> (listen preferred = None \<longrightarrow> r \<noteq> preferred)"
    if "\<exists>r. preferred \<le> r \<and> r \<le> 65535 \<and> listen r \<noteq> None"
  proof -
    from that obtain r0 where r0: "preferred \<le> r0" "r0 \<le> 65535" "listen r0 \<noteq> None" by blast
    define k where "k = (LEAST k. listen (preferred + k) \<noteq> None)"
    from r0 have ex: "listen (preferred + (r0 - preferred)) \<noteq> None" by simp
    then have free: "listen (preferred + k) \<noteq> None" unfolding k_def by (rule LeastI)
    have "k \<le> r0 - preferred" unfolding k_def using ex by (rule Least_le)
    with r0 have range: "preferred + k \<le> 65535" by simp
    have below: "listen (preferred + j) = None" if "j < k" for j
      using not_less_Least [of j "\<lambda>k. listen (preferred + k) \<noteq> None"] that
      unfolding k_def by blast
    from free obtain port where port: "listen (preferred + k) = Some port" by blast
    from getFreePort_skip [of preferred k listen port] range port below
    have res: "getFreePort listen preferred = Inr port" by blast
    have low: "listen p = None" if "preferred \<le> p" "p < preferred + k" for p
    proof -
      from that have "p = preferred + (p - preferred)" "p - preferred < k" by simp_all
      with below [of "p - preferred"] show ?thesis by simp
    qed
    have "listen preferred = None \<longrightarrow> preferred + k \<noteq> preferred"
      using port by (cases "k = 0") auto
    with res range port low show ?thesis by (intro exI [of _ "preferred + k"] exI [of _ port]) simp
  qed
  have 4: "getFreePort listen preferred = Inl (ERR_SOCKET_BAD_PORT 65536)"
    if "preferred \<le> 65536 \<and> (\<forall>p. preferred \<le> p \<and> p \<le> 65535 \<longrightarrow> listen p = None)"
    using that by (intro getFreePort_exhausted) simp_all
  have 5: "getFreePort listen preferred = Inl (ERR_SOCKET_BAD_PORT preferred)"
    if "65536 \<le> preferred"
    using that by (subst getFreePort.simps) simp
  have 6: "preferred \<le> port' \<and> port' \<le> 65535 \<and> listen port' = Some port'
        \<and> (\<forall>p. preferred \<le> p \<and> p < port' \<longrightarrow> listen p = None)"
    if h: "0 < preferred \<and> (\<forall>p r. 0 < p \<and> listen p = Some r \<longrightarrow> r = p)
        \<and> getFreePort listen preferred = Inr port'"
  proof -
    from h have res: "getFreePort listen preferred = Inr port'" by simp
    from getFreePort_sound [OF res] obtain r where
      r: "preferred \<le> r" "r \<le> 65535" "listen r = Some port'"
        "\<forall>p. preferred \<le> p \<and> p < r \<longrightarrow> listen p = None" by blast
    from h r(1) have "0 < r" by simp
    with h r(3) have "port' = r" by blast
    with r show ?thesis by simp
  qed
  from 1 2 3 4 5 6 show ?thesis by blast
qed

theorem getFreePort_smallest_free_witness:
  "getFreePort (\<lambda>p. if p = 9090 \<or> p = 9091 then None else Some p) 9090 = Inr 9092
   \<and> getFreePort (\<lambda>p. if p = 9090 \<or> p = 9091 then None else Some p) 9092 = Inr 9092
   \<and> getFreePort (\<lambda>p. if p = 9090 \<or> p = 9091 then None else Some p) 9091
        = getFreePort (\<lambda>p. if p = 9090 \<or> p = 9091 then None else Some p) 9092
   \<and> getFreePort busy_host 65000 = Inl (ERR_SOCKET_BAD_PORT 65536)
   \<and> getFreePort free_host 70000 = Inl (ERR_SOCKET_BAD_PORT 70000)"
proof -
  let ?two = "\<lambda>p::nat. if p = 9090 \<or> p = 9091 then None else Some p"
  have free: "(9092::nat) \<le> 65535 \<and> ?two 9092 = Some 9092" by simp
  note A = getFreePort_smallest_free [of 9092 ?two 9092]
  from A [THEN conjunct1, THEN mp, OF free]
  have a: "getFreePort ?two 9092 = Inr 9092" .
  have busy: "(9091::nat) \<le> 65535 \<and> ?two 9091 = None" by simp
  note B = getFreePort_smallest_free [of 9091 ?two]
  from B [THEN conjunct2, THEN conjunct1, THEN mp, OF busy]
  have b: "getFreePort ?two 9091 = getFreePort ?two 9092" by simp
  have busy0: "(9090::nat) \<le> 65535 \<and> ?two 9090 = None" by simp
  note C = getFreePort_smallest_free [of 9090 ?two]
  from C [THEN conjunct2, THEN conjunct1, THEN mp, OF busy0]
  have c: "getFreePort ?two 9090 = getFreePort ?two 9091" by simp
  from a b c have d: "getFreePort ?two 9090 = Inr 9092" by simp
  have none: "(65000::nat) \<le> 65536 \<and> (\<forall>p. 65000 \<le> p \<and> p \<le> 65535 \<longrightarrow> busy_host p = None)"
    by (simp add: busy_host_def)
  note D = getFreePort_smallest_free [of 65000 busy_host]
  from D [THEN conjunct2, THEN conjunct2, THEN conjunct2, THEN conjunct1, THEN mp, OF none]
  have e: "getFreePort busy_host 65000 = Inl (ERR_SOCKET_BAD_PORT 65536)" .
  have beyond: "(65536::nat) \<le> 70000" by simp
  note E = getFreePort_smallest_free [of 70000 free_host]
  from E [THEN conjunct2, THEN conjunct2, THEN conjunct2, THEN conjunct2, THEN conjunct1,
      THEN mp, OF beyond]
  have f: "getFreePort free_host 70000 = Inl (ERR_SOCKET_BAD_PORT 70000)" .
  have ex: "\<exists>r. 9090 \<le> r \<and> r \<le> 65535 \<and> ?two r \<noteq> None"
    by (rule exI [of _ 9092]) simp
  from C [THEN conjunct2, THEN conjunct2, THEN conjunct1, THEN mp, OF ex] d
  have "\<exists>r. 9090 \<le> r \<and> r \<le> 65535 \<and> ?two r = Some 9092
           \<and> (\<forall>p. 9090 \<le> p \<and> p < r \<longrightarrow> ?two p = None) \<and> r \<noteq> 9090"
    by auto
  have host: "(0::nat) < 9090 \<and> (\<forall>p r. 0 < p \<and> ?two p = Some r \<longrightarrow> r = p)
      \<and> getFreePort ?two 9090 = Inr 9092"
    using d by (simp split: if_splits)
  note F = getFreePort_smallest_free [of 9090 ?two _ 9092]
  from F [THEN conjunct2, THEN conjunct2, THEN conjunct2, THEN conjunct2, THEN conjunct2,
      THEN mp, OF host]
  have "\<forall>p. 9090 \<le> p \<and> p < 9092 \<longrightarrow> ?two p = None" by simp
  from a b d e f show ?thesis by (intro conjI)
qed

section \<open>Facts about the engine\<close>

lemmas engine_defs = toggle_def resolve_root_def truthy_def call_startServer_def
  startServer_enter_def startServer_resume_def port_probed_def on_listening_def client_open_def
  onDidChangeTextDocument_def setTimeout_def clearTimeout_def
  onDidSaveTextDocument_def elapse_def fire_def timer_callback_def broadcastIfAllowed_def
  getText_def DEBOUNCE_MS_def Let_def stopServer_def try_catch_def optional_call_def
  close_call_def

lemma ext_html: "toLowerCase (extname ''/w/index.html'') = ''.html''"
  by (simp add: extname_def toLowerCase_def lower_char_def Let_def)

lemma example_session_reached:
  "fst (run [Toggle (Some ''/w''), PortProbed free_host, Listening, ClientOpen 1] initial)
     = example_session"
  by (simp add: engine_defs initial_def example_session_def free_host_def getFreePort.simps)

lemma broadcastIfAllowed_cong:
  "wss s1 = wss s \<Longrightarrow> serverState s1 = serverState s \<Longrightarrow> buffers s1 = buffers s \<Longrightarrow>
     broadcastIfAllowed s1 doc = broadcastIfAllowed s doc"
  by (simp add: broadcastIfAllowed_def getText_def Let_def split: option.splits)

lemma broadcast_closed_gate:
  "serverState s \<noteq> running_editing \<Longrightarrow> broadcastIfAllowed s doc = []"
  by (simp add: broadcastIfAllowed_def split: option.splits)

lemma broadcast_no_hub: "wss s = None \<Longrightarrow> broadcastIfAllowed s doc = []"
  by (simp add: broadcastIfAllowed_def)

lemma broadcast_unwatched:
  "toLowerCase (extname (fileName doc)) \<notin> set [''.html'', ''.htm'', ''.css''] \<Longrightarrow>
     broadcastIfAllowed s doc = []"
  by (simp add: broadcastIfAllowed_def Let_def split: option.splits)

lemma broadcast_open_gate:
  "wss s = Some w \<Longrightarrow> serverState s = running_editing \<Longrightarrow>
   toLowerCase (extname (fileName doc)) \<in> set [''.html'', ''.htm'', ''.css''] \<Longrightarrow>
     broadcastIfAllowed s doc =
       [\<lparr>source = doc, payload = \<lparr>msg_file = fileName doc, msg_content = buffers s (uri doc)\<rparr>,
         recipients = map client_id (filter (\<lambda>c. readyState c = 1) (clients w))\<rparr>]"
  by (simp add: broadcastIfAllowed_def Let_def getText_def)

lemma broadcast_entries:
  "b \<in> set (broadcastIfAllowed s doc) \<Longrightarrow>
     source b = doc \<and> msg_file (payload b) = fileName doc
     \<and> msg_content (payload b) = buffers s (uri doc)
     \<and> serverState s = running_editing \<and> wss s \<noteq> None
     \<and> toLowerCase (extname (fileName doc)) \<in> set [''.html'', ''.htm'', ''.css'']"
  by (cases "wss s") (auto simp: broadcastIfAllowed_def Let_def getText_def split: if_splits)

lemma fire_eq:
  "fire t s =
     (s\<lparr>timeouts := filter (\<lambda>u. handle u \<noteq> handle t) (timeouts s),
        debounceTimers := filter (\<lambda>p. fst p \<noteq> uri (target t)) (debounceTimers s)\<rparr>,
      broadcastIfAllowed s (target t))"
proof -
  have d: "AList.delete (uri (target t)) (debounceTimers s)
          = filter (\<lambda>p. fst p \<noteq> uri (target t)) (debounceTimers s)"
    by (auto simp: AList.delete_eq intro: filter_cong)
  have b: "broadcastIfAllowed (clearTimeout (handle t) s) (target t)
          = broadcastIfAllowed s (target t)"
    by (rule broadcastIfAllowed_cong) (simp_all add: clearTimeout_def)
  show ?thesis
    unfolding fire_def timer_callback_def b
    by (simp add: clearTimeout_def d)
qed

lemma fire_all_eq:
  "fire_all ts s =
     (s\<lparr>timeouts := filter (\<lambda>u. handle u \<notin> handle ` set ts) (timeouts s),
        debounceTimers :=
          filter (\<lambda>p. fst p \<notin> (\<lambda>t. uri (target t)) ` set ts) (debounceTimers s)\<rparr>,
      concat (map (\<lambda>t. broadcastIfAllowed s (target t)) ts))"
proof (induction ts arbitrary: s)
  case Nil
  show ?case by simp
next
  case (Cons t ts)
  let ?s1 = "s\<lparr>timeouts := filter (\<lambda>u. handle u \<noteq> handle t) (timeouts s),
        debounceTimers := filter (\<lambda>p. fst p \<noteq> uri (target t)) (debounceTimers s)\<rparr>"
  have b: "broadcastIfAllowed ?s1 d = broadcastIfAllowed s d" for d
    by (rule broadcastIfAllowed_cong) simp_all
  have f1: "filter (\<lambda>u. handle u \<notin> handle ` set ts) (filter (\<lambda>u. handle u \<noteq> handle t) (timeouts s))
      = filter (\<lambda>u. handle u \<notin> handle ` set (t # ts)) (timeouts s)"
    by (auto intro: filter_cong)
  have f2: "filter (\<lambda>p. fst p \<notin> (\<lambda>t. uri (target t)) ` set ts)
        (filter (\<lambda>p. fst p \<noteq> uri (target t)) (debounceTimers s))
      = filter (\<lambda>p. fst p \<notin> (\<lambda>t. uri (target t)) ` set (t # ts)) (debounceTimers s)"
    by (auto intro: filter_cong)
  show ?case
    by (simp only: fire_all.simps fire_eq Cons.IH [of ?s1] b Let_def prod.case)
       (simp add: f1 f2)
qed

lemma elapse_eq:
  "elapse d s =
     (s\<lparr>timeouts := filter (\<lambda>u. handle u \<notin> handle ` {t \<in> set (timeouts s). due t \<le> now s + d})
                       (timeouts s),
        debounceTimers :=
          filter (\<lambda>p. fst p \<notin> (\<lambda>t. uri (target t)) ` {t \<in> set (timeouts s). due t \<le> now s + d})
            (debounceTimers s),
        now := now s + d\<rparr>,
      concat (map (\<lambda>t. broadcastIfAllowed s (target t))
        (sort_key due (filter (\<lambda>t. due t \<le> now s + d) (timeouts s)))))"
  by (simp add: elapse_def fire_all_eq Let_def)

lemma timers_ok_iff:
  "timers_ok s \<longleftrightarrow>
     distinct (map handle (timeouts s))
     \<and> (\<forall>t \<in> set (timeouts s). handle t < nextHandle s \<and> due t \<le> now s + 140
            \<and> map_of (debounceTimers s) (uri (target t)) = Some (handle t))
     \<and> (\<forall>k \<in> fst ` set (debounceTimers s). \<exists>t \<in> set (timeouts s). uri (target t) = k)"
  by (auto simp: timers_ok_def list_all_iff list_ex_iff DEBOUNCE_MS_def)

lemma same_handle_same_timeout:
  assumes "timers_ok s" and "t \<in> set (timeouts s)" and "u \<in> set (timeouts s)"
    and "handle t = handle u"
  shows "t = u"
proof -
  from assms(1) have "inj_on handle (set (timeouts s))"
    by (simp add: timers_ok_iff distinct_map)
  with assms(2-4) show ?thesis by (auto dest: inj_onD)
qed

lemma same_key_same_timeout:
  assumes "timers_ok s" and "t \<in> set (timeouts s)" and "u \<in> set (timeouts s)"
    and "uri (target t) = uri (target u)"
  shows "t = u"
proof -
  from assms have "Some (handle t) = Some (handle u)"
    by (metis timers_ok_iff)
  then have "handle t = handle u" by simp
  with assms(1-3) show ?thesis by (rule same_handle_same_timeout)
qed

lemma recorded_handle:
  assumes "timers_ok s" and "map_of (debounceTimers s) k = Some h" and "t \<in> set (timeouts s)"
  shows "handle t = h \<longleftrightarrow> uri (target t) = k"
proof
  assume "uri (target t) = k"
  with assms show "handle t = h" by (auto simp: timers_ok_iff)
next
  assume h: "handle t = h"
  from assms(2) have "k \<in> fst ` set (debounceTimers s)"
    by (metis map_of_SomeD fst_conv image_eqI)
  with assms(1) obtain u where u: "u \<in> set (timeouts s)" "uri (target u) = k"
    by (auto simp: timers_ok_iff)
  with assms(1,2) have "handle u = h" by (auto simp: timers_ok_iff)
  with h have "handle t = handle u" by simp
  with assms(1,3) u(1) have "t = u" by (rule same_handle_same_timeout)
  with u(2) show "uri (target t) = k" by simp
qed

lemma change_eq:
  assumes "timers_ok s"
  shows "onDidChangeTextDocument doc s =
     s\<lparr>timeouts := filter (\<lambda>t. uri (target t) \<noteq> uri doc) (timeouts s)
           @ [\<lparr>handle = nextHandle s, due = now s + DEBOUNCE_MS, target = doc\<rparr>],
       nextHandle := nextHandle s + 1,
       debounceTimers := AList.update (uri doc) (nextHandle s) (debounceTimers s)\<rparr>"
proof (cases "map_of (debounceTimers s) (uri doc)")
  case None
  have "uri (target t) \<noteq> uri doc" if "t \<in> set (timeouts s)" for t
    using assms that None by (auto simp: timers_ok_iff)
  then have "filter (\<lambda>t. uri (target t) \<noteq> uri doc) (timeouts s) = timeouts s"
    by (simp add: filter_id_conv)
  with None show ?thesis
    by (simp add: onDidChangeTextDocument_def setTimeout_def Let_def)
next
  case (Some h)
  have "filter (\<lambda>t. handle t \<noteq> h) (timeouts s)
          = filter (\<lambda>t. uri (target t) \<noteq> uri doc) (timeouts s)"
    using recorded_handle [OF assms Some] by (auto intro: filter_cong)
  with Some show ?thesis
    by (simp add: onDidChangeTextDocument_def setTimeout_def clearTimeout_def Let_def)
qed

lemma change_preserves:
  assumes "timers_ok s"
  shows "timers_ok (onDidChangeTextDocument doc s)"
proof -
  let ?new = "\<lparr>handle = nextHandle s, due = now s + DEBOUNCE_MS, target = doc\<rparr>"
  let ?keep = "filter (\<lambda>t. uri (target t) \<noteq> uri doc) (timeouts s)"
  let ?al = "AList.update (uri doc) (nextHandle s) (debounceTimers s)"
  from assms have old: "distinct (map handle (timeouts s))"
    "\<And>t. t \<in> set (timeouts s) \<Longrightarrow> handle t < nextHandle s \<and> due t \<le> now s + 140
            \<and> map_of (debounceTimers s) (uri (target t)) = Some (handle t)"
    "\<And>k. k \<in> fst ` set (debounceTimers s) \<Longrightarrow> \<exists>t \<in> set (timeouts s). uri (target t) = k"
    by (auto simp: timers_ok_iff)
  have "nextHandle s \<notin> handle ` set ?keep" using old(2) by fastforce
  with old(1) have 1: "distinct (map handle (?keep @ [?new]))"
    by (simp add: distinct_map_filter)
  have 2: "handle t < nextHandle s + 1 \<and> due t \<le> now s + 140
            \<and> map_of ?al (uri (target t)) = Some (handle t)"
    if "t \<in> set (?keep @ [?new])" for t
    using that old(2) by (auto simp: update_conv' DEBOUNCE_MS_def less_Suc_eq)
  have 3: "\<exists>t \<in> set (?keep @ [?new]). uri (target t) = k" if "k \<in> fst ` set ?al" for k
  proof (cases "k = uri doc")
    case True
    then show ?thesis by simp
  next
    case False
    with that have "k \<in> fst ` set (debounceTimers s)" by (simp add: dom_update)
    from old(3) [OF this] False show ?thesis by auto
  qed
  from 1 2 3 show ?thesis
    unfolding change_eq [OF assms] timers_ok_iff by simp
qed

lemma map_of_filter_key:
  "map_of (filter (\<lambda>p. Q (fst p)) al) k = (if Q k then map_of al k else None)"
  by (induction al) auto

lemma elapse_ok_eq:
  assumes "timers_ok s"
  shows "elapse d s =
     (s\<lparr>timeouts := filter (\<lambda>u. \<not> due u \<le> now s + d) (timeouts s),
        debounceTimers :=
          filter (\<lambda>p. fst p \<notin> (\<lambda>t. uri (target t)) ` {t \<in> set (timeouts s). due t \<le> now s + d})
            (debounceTimers s),
        now := now s + d\<rparr>,
      concat (map (\<lambda>t. broadcastIfAllowed s (target t))
        (sort_key due (filter (\<lambda>t. due t \<le> now s + d) (timeouts s)))))"
proof -
  have "handle u \<notin> handle ` {t \<in> set (timeouts s). due t \<le> now s + d} \<longleftrightarrow> \<not> due u \<le> now s + d"
    if "u \<in> set (timeouts s)" for u
    using same_handle_same_timeout [OF assms _ that] that by auto
  then have "filter (\<lambda>u. handle u \<notin> handle ` {t \<in> set (timeouts s). due t \<le> now s + d}) (timeouts s)
      = filter (\<lambda>u. \<not> due u \<le> now s + d) (timeouts s)"
    by (auto intro: filter_cong)
  then show ?thesis by (simp add: elapse_eq)
qed

lemma elapse_preserves:
  assumes "timers_ok s"
  shows "timers_ok (fst (elapse d s))"
proof -
  let ?K = "(\<lambda>t. uri (target t)) ` {t \<in> set (timeouts s). due t \<le> now s + d}"
  let ?keep = "filter (\<lambda>u. \<not> due u \<le> now s + d) (timeouts s)"
  let ?al = "filter (\<lambda>p. fst p \<notin> ?K) (debounceTimers s)"
  from assms have old: "distinct (map handle (timeouts s))"
    "\<And>t. t \<in> set (timeouts s) \<Longrightarrow> handle t < nextHandle s \<and> due t \<le> now s + 140
            \<and> map_of (debounceTimers s) (uri (target t)) = Some (handle t)"
    "\<And>k. k \<in> fst ` set (debounceTimers s) \<Longrightarrow> \<exists>t \<in> set (timeouts s). uri (target t) = k"
    by (auto simp: timers_ok_iff)
  have 1: "distinct (map handle ?keep)" using old(1) by (simp add: distinct_map_filter)
  have key: "uri (target t) \<notin> ?K" if "t \<in> set ?keep" for t
  proof
    assume "uri (target t) \<in> ?K"
    then obtain u where u: "u \<in> set (timeouts s)" "due u \<le> now s + d"
      "uri (target t) = uri (target u)" by auto
    from that have "t \<in> set (timeouts s)" by simp
    from same_key_same_timeout [OF assms this u(1) u(3)] u(2) that show False by simp
  qed
  have 2: "handle t < nextHandle s \<and> due t \<le> now s + d + 140
            \<and> map_of ?al (uri (target t)) = Some (handle t)" if "t \<in> set ?keep" for t
  proof -
    from that have "t \<in> set (timeouts s)" by simp
    from old(2) [OF this] key [OF that] show ?thesis
      by (simp add: map_of_filter_key [of "\<lambda>k. k \<notin> ?K"])
  qed
  have 3: "\<exists>t \<in> set ?keep. uri (target t) = k" if "k \<in> fst ` set ?al" for k
  proof -
    from that have k: "k \<in> fst ` set (debounceTimers s)" "k \<notin> ?K" by auto
    from old(3) [OF k(1)] obtain t where t: "t \<in> set (timeouts s)" "uri (target t) = k" by blast
    with k(2) have "\<not> due t \<le> now s + d" by auto
    with t show ?thesis by auto
  qed
  from 1 2 3 show ?thesis
    unfolding elapse_ok_eq [OF assms] timers_ok_iff by simp
qed

lemma fold_clearTimeout:
  "fold clearTimeout hs s = s\<lparr>timeouts := filter (\<lambda>t. handle t \<notin> set hs) (timeouts s)\<rparr>"
proof (induction hs arbitrary: s)
  case Nil
  show ?case by simp
next
  case (Cons h hs)
  have f: "filter (\<lambda>t. handle t \<notin> set hs) (filter (\<lambda>t. handle t \<noteq> h) (timeouts s))
      = filter (\<lambda>t. handle t \<notin> set (h # hs)) (timeouts s)"
    by (auto intro: filter_cong)
  have "fold clearTimeout (h # hs) s = fold clearTimeout hs (clearTimeout h s)" by simp
  also have "\<dots> = (clearTimeout h s)\<lparr>timeouts :=
      filter (\<lambda>t. handle t \<notin> set hs) (timeouts (clearTimeout h s))\<rparr>"
    by (rule Cons.IH)
  also have "\<dots> = s\<lparr>timeouts := filter (\<lambda>t. handle t \<notin> set (h # hs)) (timeouts s)\<rparr>"
    using f by (simp add: clearTimeout_def)
  finally show ?case .
qed

lemma deactivate_eq:
  "deactivate a b s =
     Inr (s\<lparr>timeouts := filter (\<lambda>t. handle t \<notin> snd ` set (debounceTimers s)) (timeouts s),
            debounceTimers := []\<rparr>)"
  by (simp add: deactivate_def try_catch_def optional_call_def close_call_def fold_clearTimeout
      split: option.splits)

lemma deactivate_ok_eq:
  assumes "timers_ok s"
  shows "deactivate a b s = Inr (s\<lparr>timeouts := [], debounceTimers := []\<rparr>)"
proof -
  have "handle t \<in> snd ` set (debounceTimers s)" if "t \<in> set (timeouts s)" for t
  proof -
    from assms that have "map_of (debounceTimers s) (uri (target t)) = Some (handle t)"
      by (simp add: timers_ok_iff)
    then show ?thesis by (metis map_of_SomeD snd_conv image_eqI)
  qed
  then have "filter (\<lambda>t. handle t \<notin> snd ` set (debounceTimers s)) (timeouts s) = []"
    by (simp add: filter_empty_conv)
  then show ?thesis by (simp add: deactivate_eq)
qed

lemma timers_ok_cong:
  "timeouts s1 = timeouts s \<Longrightarrow> debounceTimers s1 = debounceTimers s \<Longrightarrow>
   nextHandle s1 = nextHandle s \<Longrightarrow> now s1 = now s \<Longrightarrow> timers_ok s1 = timers_ok s"
  by (simp add: timers_ok_def)

lemma stopServer_result:
  "stopServer a b s = Inr (s\<lparr>wss := None, httpServer := None, activePort := None,
                            serverState := stopped\<rparr>)"
  by (simp add: stopServer_def try_catch_def optional_call_def close_call_def
      split: option.splits sum.splits)

lemma call_startServer_timers:
  "timeouts (call_startServer root s) = timeouts s
   \<and> debounceTimers (call_startServer root s) = debounceTimers s
   \<and> nextHandle (call_startServer root s) = nextHandle s
   \<and> now (call_startServer root s) = now s"
  by (simp add: call_startServer_def startServer_enter_def)

lemma startServer_resume_timers:
  "timeouts (snd (startServer_resume root port s)) = timeouts s
   \<and> debounceTimers (snd (startServer_resume root port s)) = debounceTimers s
   \<and> nextHandle (snd (startServer_resume root port s)) = nextHandle s
   \<and> now (snd (startServer_resume root port s)) = now s"
  by (simp add: startServer_resume_def Let_def)

lemma step_preserves:
  assumes "timers_ok s"
  shows "timers_ok (fst (step e s))"
proof (cases e)
  case (Toggle ws)
  have "timers_ok (toggle ws s) = timers_ok s"
    by (rule timers_ok_cong)
       (simp_all add: toggle_def call_startServer_timers split: ServerState.splits option.splits)
  with assms Toggle show ?thesis by simp
next
  case (OpenFile ws)
  have "timers_ok (openFile ws s) = timers_ok s"
    by (rule timers_ok_cong)
       (simp_all add: openFile_def call_startServer_timers split: option.splits)
  with assms OpenFile show ?thesis by simp
next
  case (PortProbed listen)
  have "timers_ok (port_probed listen s) = timers_ok s"
    by (rule timers_ok_cong)
       (simp_all add: port_probed_def startServer_resume_timers split: list.splits sum.splits)
  with assms PortProbed show ?thesis by simp
next
  case Listening
  have "timers_ok (on_listening s) = timers_ok s"
    by (rule timers_ok_cong) (simp_all add: on_listening_def split: option.splits)
  with assms Listening show ?thesis by simp
next
  case (Stop a b)
  with assms show ?thesis by (simp add: stopServer_result timers_ok_def)
next
  case (Deactivate a b)
  with assms show ?thesis by (simp add: deactivate_ok_eq timers_ok_def)
next
  case (Edit doc body)
  from assms have "timers_ok (s\<lparr>buffers := (buffers s)(uri doc := body)\<rparr>)"
    by (simp add: timers_ok_def)
  then have "timers_ok (onDidChangeTextDocument doc (s\<lparr>buffers := (buffers s)(uri doc := body)\<rparr>))"
    by (rule change_preserves)
  with assms Edit show ?thesis by (simp add: Let_def timers_ok_def)
next
  case (Save doc)
  with assms show ?thesis by (simp add: onDidSaveTextDocument_def)
next
  case (Elapse d)
  with assms show ?thesis by (simp add: elapse_preserves)
next
  case (ClientOpen c)
  have "timers_ok (client_open c s) = timers_ok s"
    by (rule timers_ok_cong) (simp_all add: client_open_def split: option.splits)
  with assms ClientOpen show ?thesis by simp
next
  case (ClientState c st)
  have "timers_ok (client_state c st s) = timers_ok s"
    by (rule timers_ok_cong) (simp_all add: client_state_def split: option.splits)
  with assms ClientState show ?thesis by simp
next
  case (ClientClose c)
  have "timers_ok (client_close c s) = timers_ok s"
    by (rule timers_ok_cong) (simp_all add: client_close_def split: option.splits)
  with assms ClientClose show ?thesis by simp
qed

lemma run_preserves: "timers_ok s \<Longrightarrow> timers_ok (fst (run es s))"
proof (induction es arbitrary: s)
  case Nil
  then show ?case by simp
next
  case (Cons e es)
  from Cons.prems have "timers_ok (fst (step e s))" by (rule step_preserves)
  then have "timers_ok (fst (run es (fst (step e s))))" by (rule Cons.IH)
  then show ?case by (simp add: split_beta Let_def)
qed

lemma initial_ok: "timers_ok initial"
  by (simp add: timers_ok_def initial_def)

lemma reachable_ok: "timers_ok (fst (run es initial))"
  using initial_ok by (rule run_preserves)

lemma run_append:
  "run (xs @ ys) s =
     (let (s1, l1) = run xs s; (s2, l2) = run ys s1 in (s2, l1 @ l2))"
  by (induction xs arbitrary: s) (simp_all add: split_beta Let_def)

lemma step_silent:
  assumes "serverState s \<noteq> running_editing"
  shows "snd (step e s) = []"
proof (cases e)
  case (Save doc)
  with assms show ?thesis by (simp add: onDidSaveTextDocument_def broadcast_closed_gate)
next
  case (Elapse d)
  with assms show ?thesis by (simp add: elapse_eq broadcast_closed_gate)
qed (simp_all add: Let_def split: sum.splits)

lemma step_entries:
  assumes "b \<in> set (snd (step e s))"
  shows "serverState s = running_editing \<and> wss s \<noteq> None
       \<and> msg_file (payload b) = fileName (source b)
       \<and> toLowerCase (extname (fileName (source b))) \<in> set [''.html'', ''.htm'', ''.css'']"
proof (cases e)
  case (Save doc)
  with assms have "b \<in> set (broadcastIfAllowed s doc)"
    by (simp add: onDidSaveTextDocument_def split: if_splits)
  from broadcast_entries [OF this] show ?thesis by simp
next
  case (Elapse d)
  with assms obtain t :: Timeout where "b \<in> set (broadcastIfAllowed s (target t))"
    by (auto simp: elapse_eq)
  from broadcast_entries [OF this] show ?thesis by simp
qed (insert assms, simp_all add: Let_def split: sum.splits if_splits)

lemma run_entries:
  "b \<in> set (snd (run es s)) \<Longrightarrow>
     msg_file (payload b) = fileName (source b)
     \<and> toLowerCase (extname (fileName (source b))) \<in> set [''.html'', ''.htm'', ''.css'']"
proof (induction es arbitrary: s)
  case Nil
  then show ?case by simp
next
  case (Cons e es)
  from Cons.prems consider "b \<in> set (snd (step e s))" | "b \<in> set (snd (run es (fst (step e s))))"
    by (auto simp: split_beta Let_def)
  then show ?case
  proof cases
    case 1
    from step_entries [OF this] show ?thesis by simp
  next
    case 2
    then show ?thesis by (rule Cons.IH)
  qed
qed

section \<open>Starting and stopping: the claim\<close>

text \<open>
  C4. Starting is idempotent and stopping twice is safe. When a server exists,
  \<open>startServer\<close> returns the active port and leaves the whole state as it is: no listener
  is created and no port is probed (the result does not depend on what the ports would
  answer). A second call after a first one that started the server returns the same port.
  \<open>stopServer\<close> never raises, whatever the two \<^verbatim>\<open>close\<close> calls do, it leaves the state
  \<open>stopped\<close>, and a second call returns the state of the first.
\<close>

theorem start_stop_idempotent:
  "(httpServer s \<noteq> None \<longrightarrow> startServer listen root s = (Inr (activePort s), s))
   \<and> (httpServer s = None \<and> startServer listen root s = (Inr r, s1) \<longrightarrow>
        httpServer s1 \<noteq> None \<and> startServer listen' root' s1 = (Inr r, s1))
   \<and> (\<exists>s1. stopServer a b s = Inr s1 \<and> serverState s1 = stopped
          \<and> stopServer c d s1 = Inr s1)"
proof -
  have again: "startServer listen root s = (Inr (activePort s), s)" if "httpServer s \<noteq> None"
    for s listen root
    using that by (simp add: startServer_def startServer_enter_def)
  have first: "httpServer s1 \<noteq> None \<and> startServer listen' root' s1 = (Inr r, s1)"
    if a: "httpServer s = None \<and> startServer listen root s = (Inr r, s1)"
  proof -
    from a obtain port where
      s1: "startServer_resume root port (s\<lparr>currentRoot := Some root\<rparr>) = (r, s1)"
      by (auto simp: startServer_def startServer_enter_def split: sum.splits prod.splits)
    then have h: "httpServer s1 \<noteq> None" and r: "r = activePort s1"
      by (auto simp: startServer_resume_def Let_def split: if_splits)
    from again [OF h, of listen' root'] r h show ?thesis by simp
  qed
  let ?s1 = "s\<lparr>wss := None, httpServer := None, activePort := None, serverState := stopped\<rparr>"
  have "stopServer a b s = Inr ?s1" by (rule stopServer_result)
  moreover have "serverState ?s1 = stopped" by simp
  moreover have "stopServer c d ?s1 = Inr ?s1" by (simp add: stopServer_result)
  ultimately have stop: "\<exists>s1. stopServer a b s = Inr s1 \<and> serverState s1 = stopped
          \<and> stopServer c d s1 = Inr s1" by blast
  from again first stop show ?thesis by blast
qed

theorem start_stop_idempotent_witness:
  "httpServer initial = None
   \<and> startServer (\<lambda>p. if p = 9090 then None else Some p) ''/w'' initial
        = (Inr (Some 9091),
            initial\<lparr>currentRoot := Some ''/w'', activePort := Some 9091,
              httpServer := Some \<lparr>served_root = ''/w'', listen_port = 9091, listening = False\<rparr>,
              wss := Some \<lparr>clients = []\<rparr>, listenersRegistered := True\<rparr>)
   \<and> httpServer example_session \<noteq> None
   \<and> startServer busy_host ''/other'' example_session = (Inr (Some 9090), example_session)
   \<and> stopServer True False (example_session\<lparr>wss := None, httpServer := None,
          activePort := None, serverState := stopped\<rparr>)
        = Inr (example_session\<lparr>wss := None, httpServer := None, activePort := None,
            serverState := stopped\<rparr>)"
proof -
  have 1: "httpServer example_session \<noteq> None" by (simp add: example_session_def)
  have 2: "httpServer initial = None" by (simp add: initial_def)
  have 3: "startServer (\<lambda>p. if p = 9090 then None else Some p) ''/w'' initial
        = (Inr (Some 9091),
            initial\<lparr>currentRoot := Some ''/w'', activePort := Some 9091,
              httpServer := Some \<lparr>served_root = ''/w'', listen_port = 9091, listening = False\<rparr>,
              wss := Some \<lparr>clients = []\<rparr>, listenersRegistered := True\<rparr>)"
    by (simp add: startServer_def startServer_enter_def startServer_resume_def initial_def
        getFreePort.simps Let_def)
  note T = start_stop_idempotent [of example_session busy_host "''/other''" "Some 9090"
      example_session busy_host "''/other''" True False True False]
  from T 1 have 4: "startServer busy_host ''/other'' example_session
      = (Inr (activePort example_session), example_session)" by blast
  have 5: "stopServer True False (example_session\<lparr>wss := None, httpServer := None,
          activePort := None, serverState := stopped\<rparr>)
        = Inr (example_session\<lparr>wss := None, httpServer := None, activePort := None,
            serverState := stopped\<rparr>)"
    by (simp add: stopServer_result)
  from 1 2 3 4 5 show ?thesis by (simp add: example_session_def)
qed

lemma broadcast_filter_key:
  "filter (\<lambda>b. uri (source b) = k) (broadcastIfAllowed s d)
     = (if uri d = k then broadcastIfAllowed s d else [])"
  by (auto simp: filter_id_conv filter_empty_conv dest: broadcast_entries)

lemma log_filter_key:
  "filter (\<lambda>b. uri (source b) = k) (concat (map (\<lambda>t. broadcastIfAllowed s (target t)) ts))
     = concat (map (\<lambda>t. broadcastIfAllowed s (target t)) (filter (\<lambda>t. uri (target t) = k) ts))"
  by (induction ts) (simp_all add: broadcast_filter_key)

lemma elapse_key_log:
  "filter (\<lambda>b. uri (source b) = k) (snd (elapse d s))
     = concat (map (\<lambda>t. broadcastIfAllowed s (target t))
         (sort_key due (filter (\<lambda>t. due t \<le> now s + d)
            (filter (\<lambda>t. uri (target t) = k) (timeouts s)))))"
proof -
  have "filter (\<lambda>t. uri (target t) = k) (filter (\<lambda>t. due t \<le> now s + d) (timeouts s))
      = filter (\<lambda>t. due t \<le> now s + d) (filter (\<lambda>t. uri (target t) = k) (timeouts s))"
    by (auto intro: filter_cong)
  then show ?thesis
    by (simp only: elapse_eq snd_conv log_filter_key filter_sort)
qed

lemma edit_step:
  assumes "timers_ok s" and "listenersRegistered s"
  shows "step (Edit doc body) s =
     (s\<lparr>buffers := (buffers s)(uri doc := body),
        timeouts := filter (\<lambda>t. uri (target t) \<noteq> uri doc) (timeouts s)
           @ [\<lparr>handle = nextHandle s, due = now s + DEBOUNCE_MS, target = doc\<rparr>],
        nextHandle := nextHandle s + 1,
        debounceTimers := AList.update (uri doc) (nextHandle s) (debounceTimers s)\<rparr>, [])"
proof -
  from assms(1) have "timers_ok (s\<lparr>buffers := (buffers s)(uri doc := body)\<rparr>)"
    by (simp add: timers_ok_def)
  from change_eq [OF this, of doc] assms(2) show ?thesis by (simp add: Let_def)
qed


section \<open>Broadcast gating: the claim\<close>

lemma elapse_all:
  assumes "timers_ok s" and "DEBOUNCE_MS \<le> d"
  shows "timeouts (fst (elapse d s)) = [] \<and> debounceTimers (fst (elapse d s)) = []"
proof -
  from assms have due: "due t \<le> now s + d" if "t \<in> set (timeouts s)" for t
    using that by (fastforce simp: timers_ok_iff DEBOUNCE_MS_def)
  then have 1: "filter (\<lambda>u. \<not> due u \<le> now s + d) (timeouts s) = []"
    by (simp add: filter_empty_conv)
  have "fst p \<in> (\<lambda>t. uri (target t)) ` {t \<in> set (timeouts s). due t \<le> now s + d}"
    if "p \<in> set (debounceTimers s)" for p
  proof -
    from that have "fst p \<in> fst ` set (debounceTimers s)" by simp
    with assms(1) obtain t where "t \<in> set (timeouts s)" "uri (target t) = fst p"
      by (auto simp: timers_ok_iff)
    with due show ?thesis by force
  qed
  then have 2: "filter (\<lambda>p. fst p \<notin> (\<lambda>t. uri (target t)) ` {t \<in> set (timeouts s). due t \<le> now s + d})
      (debounceTimers s) = []"
    by (simp add: filter_empty_conv)
  from 1 2 show ?thesis by (simp add: elapse_ok_eq [OF assms(1)])
qed

lemma elapse_serverState: "serverState (fst (elapse d s)) = serverState s"
  by (simp add: elapse_eq)

lemma step_sender_state:
  assumes "snd (step e s) \<noteq> []"
  shows "serverState s = running_editing \<and> serverState (fst (step e s)) = running_editing"
proof -
  from assms have run: "serverState s = running_editing" using step_silent by blast
  from assms consider doc where "e = Save doc" | d where "e = Elapse d"
    by (cases e) (simp_all add: Let_def split: sum.splits if_splits)
  then have "serverState (fst (step e s)) = serverState s"
  proof cases
    case 1
    then show ?thesis by (simp add: onDidSaveTextDocument_def)
  next
    case 2
    then show ?thesis by (simp add: elapse_serverState)
  qed
  with run show ?thesis by simp
qed

lemma edit_then_closed_gate:
  assumes "timers_ok s" and "listenersRegistered s" and "DEBOUNCE_MS \<le> d"
    and "serverState (fst (step e (fst (step (Edit doc body) s)))) \<noteq> running_editing"
  shows "map_of (debounceTimers (fst (step (Edit doc body) s))) (uri doc) \<noteq> None
       \<and> snd (run [Edit doc body, e, Elapse d] s) = []
       \<and> timeouts (fst (run [Edit doc body, e, Elapse d] s)) = []"
proof -
  define s1 where "s1 = fst (step (Edit doc body) s)"
  define s2 where "s2 = fst (step e s1)"
  have st: "step (Edit doc body) s =
     (s\<lparr>buffers := (buffers s)(uri doc := body),
        timeouts := filter (\<lambda>t. uri (target t) \<noteq> uri doc) (timeouts s)
           @ [\<lparr>handle = nextHandle s, due = now s + DEBOUNCE_MS, target = doc\<rparr>],
        nextHandle := nextHandle s + 1,
        debounceTimers := AList.update (uri doc) (nextHandle s) (debounceTimers s)\<rparr>, [])"
    by (rule edit_step [OF assms(1,2)])
  have l1: "snd (step (Edit doc body) s) = []" by (simp only: st snd_conv)
  have m: "map_of (debounceTimers s1) (uri doc) \<noteq> None"
    unfolding s1_def by (simp add: st update_conv' del: step.simps(7))
  have ok2: "timers_ok s2" unfolding s2_def s1_def
    by (intro step_preserves assms(1))
  from assms(4) have closed: "serverState s2 \<noteq> running_editing" by (simp add: s2_def s1_def)
  have l2: "snd (step e s1) = []"
  proof (rule ccontr)
    assume "snd (step e s1) \<noteq> []"
    from step_sender_state [OF this] closed show False by (simp add: s2_def)
  qed
  have l3: "snd (elapse d s2) = []" using closed step_silent [of s2 "Elapse d"] by simp
  have t3: "timeouts (fst (elapse d s2)) = []" using elapse_all [OF ok2 assms(3)] by simp
  have r: "run [Edit doc body, e, Elapse d] s =
      (fst (elapse d s2), snd (step (Edit doc body) s) @ snd (step e s1) @ snd (elapse d s2))"
    unfolding s2_def s1_def by (simp add: split_beta Let_def del: step.simps(7))
  from m l1 l2 l3 t3 show ?thesis unfolding r by (simp add: s1_def del: step.simps(7))
qed

text \<open>
  C1. No message is sent unless the session state is \<open>running_editing\<close> at the moment of
  the send. For every state and every event: if the step makes a broadcast, the state is
  \<open>running_editing\<close> before the step and after it (the two sending steps, a save and a
  firing timer, do not change the state). In any other state \<open>broadcastIfAllowed\<close>, a firing
  timer and every step send nothing. In particular, an edit made while \<open>running_editing\<close>
  leaves a pending timer; after a pause (the toggle command) or a stop that timer fires
  within the quiet window and nothing is sent, because the state is read when the timer
  fires.
\<close>

theorem broadcast_only_while_editing:
  "(snd (step e s) \<noteq> [] \<longrightarrow>
      serverState s = running_editing \<and> serverState (fst (step e s)) = running_editing)
   \<and> (serverState s \<noteq> running_editing \<longrightarrow>
        broadcastIfAllowed s doc = [] \<and> snd (fire t s) = [] \<and> snd (step e s) = [])
   \<and> (timers_ok s \<and> listenersRegistered s \<and> serverState s = running_editing
        \<and> DEBOUNCE_MS \<le> d \<longrightarrow>
        map_of (debounceTimers (fst (step (Edit doc body) s))) (uri doc) \<noteq> None
        \<and> serverState (fst (run [Edit doc body, Toggle ws] s)) = running_paused
        \<and> snd (run [Edit doc body, Toggle ws, Elapse d] s) = []
        \<and> timeouts (fst (run [Edit doc body, Toggle ws, Elapse d] s)) = []
        \<and> serverState (fst (run [Edit doc body, Stop a b] s)) = stopped
        \<and> snd (run [Edit doc body, Stop a b, Elapse d] s) = []
        \<and> timeouts (fst (run [Edit doc body, Stop a b, Elapse d] s)) = [])"
proof -
  have 1: "serverState s = running_editing \<and> serverState (fst (step e s)) = running_editing"
    if "snd (step e s) \<noteq> []"
    using that by (rule step_sender_state)
  have 2: "broadcastIfAllowed s doc = [] \<and> snd (fire t s) = [] \<and> snd (step e s) = []"
    if "serverState s \<noteq> running_editing"
    using that by (simp add: broadcast_closed_gate fire_eq step_silent)
  have 3: "map_of (debounceTimers (fst (step (Edit doc body) s))) (uri doc) \<noteq> None
        \<and> serverState (fst (run [Edit doc body, Toggle ws] s)) = running_paused
        \<and> snd (run [Edit doc body, Toggle ws, Elapse d] s) = []
        \<and> timeouts (fst (run [Edit doc body, Toggle ws, Elapse d] s)) = []
        \<and> serverState (fst (run [Edit doc body, Stop a b] s)) = stopped
        \<and> snd (run [Edit doc body, Stop a b, Elapse d] s) = []
        \<and> timeouts (fst (run [Edit doc body, Stop a b, Elapse d] s)) = []"
    if h: "timers_ok s \<and> listenersRegistered s \<and> serverState s = running_editing
        \<and> DEBOUNCE_MS \<le> d"
  proof -
    from h have ok: "timers_ok s" and reg: "listenersRegistered s"
      and ed: "serverState s = running_editing" and d: "DEBOUNCE_MS \<le> d" by simp_all
    have s1: "serverState (fst (step (Edit doc body) s)) = running_editing"
      using ed by (simp add: edit_step [OF ok reg] del: step.simps(7))
    have p: "serverState (fst (step (Toggle ws) (fst (step (Edit doc body) s)))) = running_paused"
      using s1 by (simp add: toggle_def)
    have q: "serverState (fst (step (Stop a b) (fst (step (Edit doc body) s)))) = stopped"
      by (simp add: stopServer_result del: step.simps(7))
    from p have p': "serverState (fst (step (Toggle ws) (fst (step (Edit doc body) s)))) \<noteq> running_editing"
      by simp
    from q have q': "serverState (fst (step (Stop a b) (fst (step (Edit doc body) s)))) \<noteq> running_editing"
      by simp
    have rp: "fst (run [Edit doc body, Toggle ws] s) = fst (step (Toggle ws) (fst (step (Edit doc body) s)))"
      by (simp add: split_beta Let_def del: step.simps(7))
    have rq: "fst (run [Edit doc body, Stop a b] s) = fst (step (Stop a b) (fst (step (Edit doc body) s)))"
      by (simp add: split_beta Let_def del: step.simps(7))
    from edit_then_closed_gate [OF ok reg d p'] edit_then_closed_gate [OF ok reg d q'] p q
    show ?thesis unfolding rp rq by simp
  qed
  from 1 2 3 show ?thesis by blast
qed

theorem broadcast_only_while_editing_witness:
  "snd (step (Save example_doc) example_session) \<noteq> []
   \<and> serverState example_session = running_editing
   \<and> serverState (example_session\<lparr>serverState := running_paused\<rparr>) \<noteq> running_editing
   \<and> snd (step (Save example_doc) (example_session\<lparr>serverState := running_paused\<rparr>)) = []
   \<and> timers_ok example_session \<and> listenersRegistered example_session \<and> DEBOUNCE_MS \<le> 140
   \<and> serverState (fst (run [Edit example_doc ''<p>x</p>'', Toggle None] example_session))
        = running_paused
   \<and> snd (run [Edit example_doc ''<p>x</p>'', Toggle None, Elapse 140] example_session) = []
   \<and> snd (run [Edit example_doc ''<p>x</p>'', Stop False False, Elapse 140] example_session) = []
   \<and> snd (run [Edit example_doc ''<p>x</p>'', Elapse 140] example_session) \<noteq> []"
proof -
  have h: "timers_ok example_session \<and> listenersRegistered example_session
      \<and> serverState example_session = running_editing \<and> DEBOUNCE_MS \<le> 140"
    by (simp add: timers_ok_def example_session_def DEBOUNCE_MS_def)
  have p: "serverState (example_session\<lparr>serverState := running_paused\<rparr>) \<noteq> running_editing"
    by simp
  have live: "snd (step (Save example_doc) example_session) \<noteq> []"
    "snd (run [Edit example_doc ''<p>x</p>'', Elapse 140] example_session) \<noteq> []"
    by (simp_all add: engine_defs example_session_def example_doc_def ext_html)
  note T1 = broadcast_only_while_editing [of "Save example_doc" example_session example_doc
      "\<lparr>handle = 0, due = 140, target = example_doc\<rparr>" 140 "''<p>x</p>''" None False False]
  note T2 = broadcast_only_while_editing [of "Save example_doc"
      "example_session\<lparr>serverState := running_paused\<rparr>" example_doc
      "\<lparr>handle = 0, due = 140, target = example_doc\<rparr>" 140 "''<p>x</p>''" None False False]
  from T1 live(1) have a: "serverState example_session = running_editing" by blast
  from T2 p have b: "snd (step (Save example_doc) (example_session\<lparr>serverState := running_paused\<rparr>)) = []"
    by blast
  from T1 h have c:
    "serverState (fst (run [Edit example_doc ''<p>x</p>'', Toggle None] example_session))
        = running_paused"
    "snd (run [Edit example_doc ''<p>x</p>'', Toggle None, Elapse 140] example_session) = []"
    "snd (run [Edit example_doc ''<p>x</p>'', Stop False False, Elapse 140] example_session) = []"
    by blast+
  from h p live a b c show ?thesis by blast
qed

section \<open>Debouncing, saving and filtering: the claims\<close>

lemma pending_fires:
  assumes "timers_ok s" and "DEBOUNCE_MS \<le> quiet"
    and "filter (\<lambda>t. uri (target t) = uri doc) (timeouts s)
           = [\<lparr>handle = h, due = now s + DEBOUNCE_MS, target = doc\<rparr>]"
  shows "filter (\<lambda>b. uri (source b) = uri doc) (snd (elapse quiet s)) = broadcastIfAllowed s doc
       \<and> filter (\<lambda>t. uri (target t) = uri doc) (timeouts (fst (elapse quiet s))) = []
       \<and> map_of (debounceTimers (fst (elapse quiet s))) (uri doc) = None"
proof -
  have 1: "filter (\<lambda>b. uri (source b) = uri doc) (snd (elapse quiet s)) = broadcastIfAllowed s doc"
    using assms(2) by (simp add: elapse_key_log assms(3))
  from elapse_all [OF assms(1,2)] have 2: "timeouts (fst (elapse quiet s)) = []"
    and 3: "debounceTimers (fst (elapse quiet s)) = []" by simp_all
  from 1 2 3 show ?thesis by simp
qed



text \<open>
  C7. Save bypass. An edit followed at once by a save of the same document: the save calls
  \<open>broadcastIfAllowed\<close> immediately and changes nothing else, so the timer set by the edit
  is still pending and recorded; when the quiet window has passed it fires and calls
  \<open>broadcastIfAllowed\<close> again. Both calls read the full text of the document at their own
  time. With a hub, in state \<open>running_editing\<close> and for a watched file these are two
  broadcasts of the current text: the save is neither lost nor does it cancel the timer.
\<close>

theorem save_bypasses_debounce:
  assumes "timers_ok s" and "listenersRegistered s" and "DEBOUNCE_MS \<le> quiet"
  shows "(let (s1, l1) = step (Edit doc body) s;
              (s2, l2) = step (Save doc) s1;
              (s3, l3) = step (Elapse quiet) s2
          in l1 = [] \<and> getText s1 doc = body
           \<and> l2 = broadcastIfAllowed s1 doc
           \<and> timeouts s2 = timeouts s1 \<and> debounceTimers s2 = debounceTimers s1
           \<and> map_of (debounceTimers s2) (uri doc) = Some (nextHandle s)
           \<and> filter (\<lambda>t. uri (target t) = uri doc) (timeouts s2)
                = [\<lparr>handle = nextHandle s, due = now s + DEBOUNCE_MS, target = doc\<rparr>]
           \<and> filter (\<lambda>b. uri (source b) = uri doc) l3 = broadcastIfAllowed s2 doc
           \<and> getText s2 doc = body
           \<and> (\<forall>w. wss s = Some w \<and> serverState s = running_editing
                  \<and> toLowerCase (extname (fileName doc)) \<in> set [''.html'', ''.htm'', ''.css'']
                \<longrightarrow> filter (\<lambda>b. uri (source b) = uri doc) (l1 @ l2 @ l3)
                     = replicate 2 \<lparr>source = doc,
                         payload = \<lparr>msg_file = fileName doc, msg_content = body\<rparr>,
                         recipients = map client_id (filter (\<lambda>c. readyState c = 1) (clients w))\<rparr>))"
proof -
  define s1 where "s1 = fst (step (Edit doc body) s)"
  define l3 where "l3 = snd (elapse quiet s1)"
  have st: "step (Edit doc body) s =
     (s\<lparr>buffers := (buffers s)(uri doc := body),
        timeouts := filter (\<lambda>t. uri (target t) \<noteq> uri doc) (timeouts s)
           @ [\<lparr>handle = nextHandle s, due = now s + DEBOUNCE_MS, target = doc\<rparr>],
        nextHandle := nextHandle s + 1,
        debounceTimers := AList.update (uri doc) (nextHandle s) (debounceTimers s)\<rparr>, [])"
    by (rule edit_step [OF assms(1,2)])
  have e1: "step (Edit doc body) s = (s1, [])" by (simp only: s1_def st fst_conv)
  have ok1: "timers_ok s1" unfolding s1_def using assms(1) by (rule step_preserves)
  have reg1: "listenersRegistered s1" "wss s1 = wss s" "serverState s1 = serverState s"
    "buffers s1 = (buffers s)(uri doc := body)" "now s1 = now s"
    unfolding s1_def using assms(2) by (simp_all add: st del: step.simps)
  have m1: "map_of (debounceTimers s1) (uri doc) = Some (nextHandle s)"
    unfolding s1_def by (simp add: st update_conv' del: step.simps)
  have p1: "filter (\<lambda>t. uri (target t) = uri doc) (timeouts s1)
               = [\<lparr>handle = nextHandle s, due = now s1 + DEBOUNCE_MS, target = doc\<rparr>]"
    unfolding s1_def by (simp add: st del: step.simps)
  have e2: "step (Save doc) s1 = (s1, broadcastIfAllowed s1 doc)"
    using reg1(1) by (simp add: onDidSaveTextDocument_def)
  have e3: "step (Elapse quiet) s1 = (fst (elapse quiet s1), l3)" by (simp add: l3_def)
  note F = pending_fires [OF ok1 assms(3) p1, folded l3_def]
  have g: "getText s1 doc = body" by (simp add: getText_def reg1)
  have open_gate: "broadcastIfAllowed s1 doc = [\<lparr>source = doc,
                       payload = \<lparr>msg_file = fileName doc, msg_content = body\<rparr>,
                       recipients = map client_id (filter (\<lambda>c. readyState c = 1) (clients w))\<rparr>]"
    if "wss s = Some w \<and> serverState s = running_editing
          \<and> toLowerCase (extname (fileName doc)) \<in> set [''.html'', ''.htm'', ''.css'']" for w
  proof -
    from that reg1 have "wss s1 = Some w" "serverState s1 = running_editing"
      "toLowerCase (extname (fileName doc)) \<in> set [''.html'', ''.htm'', ''.css'']" by simp_all
    from broadcast_open_gate [OF this] reg1 show ?thesis by simp
  qed
  have both: "filter (\<lambda>b. uri (source b) = uri doc) ([] @ broadcastIfAllowed s1 doc @ l3)
      = broadcastIfAllowed s1 doc @ broadcastIfAllowed s1 doc"
    using F by (simp add: broadcast_filter_key)
  show ?thesis
    unfolding e1 e2 e3 Let_def prod.case
    using m1 p1 g F open_gate both reg1(5) by (simp add: numeral_2_eq_2)
qed

theorem save_bypasses_debounce_witness:
  "timers_ok example_session \<and> listenersRegistered example_session \<and> DEBOUNCE_MS \<le> 140
   \<and> (let (s1, l1) = step (Edit example_doc ''<p>x</p>'') example_session;
           (s2, l2) = step (Save example_doc) s1;
           (s3, l3) = step (Elapse 140) s2
       in l1 @ l2 @ l3
            = replicate 2 \<lparr>source = example_doc,
                 payload = \<lparr>msg_file = ''/w/index.html'', msg_content = ''<p>x</p>''\<rparr>,
                 recipients = [1]\<rparr>
          \<and> debounceTimers s2 = [(''file:///w/index.html'', 0)]
          \<and> debounceTimers s3 = [])"
proof -
  have 1: "timers_ok example_session" by (simp add: timers_ok_def example_session_def)
  have 2: "listenersRegistered example_session" by (simp add: example_session_def)
  have 3: "DEBOUNCE_MS \<le> 140" by (simp add: DEBOUNCE_MS_def)
  from save_bypasses_debounce [OF 1 2 3, of example_doc "''<p>x</p>''"] 1 2 3
  show ?thesis
    by (simp add: engine_defs example_session_def example_doc_def ext_html numeral_2_eq_2)
qed

text \<open>
  C9. Extension filtering. For a document whose extension, in lower case, is none of
  \<^verbatim>\<open>.html\<close>, \<^verbatim>\<open>.htm\<close>, \<^verbatim>\<open>.css\<close>, nothing is ever broadcast, in any state:
  \<open>broadcastIfAllowed\<close> returns nothing, so neither an edit, a save nor a firing timer of that
  document sends, and no run of events from any state contains a broadcast for the document
  or with its file name.
\<close>

theorem unwatched_never_broadcast:
  assumes "toLowerCase (extname (fileName doc)) \<notin> set [''.html'', ''.htm'', ''.css'']"
  shows "broadcastIfAllowed s doc = []
       \<and> snd (step (Edit doc body) s) = []
       \<and> snd (step (Save doc) s) = []
       \<and> snd (fire \<lparr>handle = h, due = t, target = doc\<rparr> s) = []
       \<and> (\<forall>b \<in> set (snd (run es s)). source b \<noteq> doc \<and> msg_file (payload b) \<noteq> fileName doc)"
proof -
  have 1: "broadcastIfAllowed s doc = []" for s using assms by (rule broadcast_unwatched)
  have 2: "snd (step (Edit doc body) s) = []" by (simp add: Let_def)
  have 3: "snd (step (Save doc) s) = []" by (simp add: onDidSaveTextDocument_def 1)
  have 4: "snd (fire \<lparr>handle = h, due = t, target = doc\<rparr> s) = []" by (simp add: fire_eq 1)
  have 5: "source b \<noteq> doc \<and> msg_file (payload b) \<noteq> fileName doc"
    if "b \<in> set (snd (run es s))" for b
    using run_entries [OF that] assms by auto
  from 1 2 3 4 5 show ?thesis by blast
qed

theorem unwatched_never_broadcast_witness:
  "toLowerCase (extname (fileName script_doc)) \<notin> set [''.html'', ''.htm'', ''.css'']
   \<and> broadcastIfAllowed example_session script_doc = []
   \<and> snd (step (Save script_doc) example_session) = []
   \<and> snd (run [Edit script_doc ''let x'', Save script_doc, Elapse 140] example_session) = []
   \<and> snd (run [Edit script_doc ''let x'', Save example_doc, Elapse 140] example_session)
        = [\<lparr>source = example_doc,
             payload = \<lparr>msg_file = ''/w/index.html'', msg_content = []\<rparr>, recipients = [1]\<rparr>]"
proof -
  have 1: "toLowerCase (extname (fileName script_doc)) \<notin> set [''.html'', ''.htm'', ''.css'']"
    by (simp add: script_doc_def extname_def toLowerCase_def lower_char_def Let_def)
  note T = unwatched_never_broadcast [OF 1, of example_session "''let x''" 0 140
      "[Edit script_doc ''let x'', Save example_doc, Elapse 140]"]
  from T have 2: "broadcastIfAllowed example_session script_doc = []"
    and 3: "snd (step (Save script_doc) example_session) = []" by blast+
  from T have none: "\<forall>b \<in> set (snd (run [Edit script_doc ''let x'', Save example_doc, Elapse 140]
      example_session)). source b \<noteq> script_doc" by blast
  have 4: "snd (run [Edit script_doc ''let x'', Save script_doc, Elapse 140] example_session) = []"
    using 1
    by (simp add: engine_defs example_session_def script_doc_def)
  have 5: "snd (run [Edit script_doc ''let x'', Save example_doc, Elapse 140] example_session)
        = [\<lparr>source = example_doc,
             payload = \<lparr>msg_file = ''/w/index.html'', msg_content = []\<rparr>, recipients = [1]\<rparr>]"
    using 1
    by (simp add: engine_defs example_session_def script_doc_def example_doc_def ext_html)
  from 1 2 3 4 5 show ?thesis by blast
qed

text \<open>
  While the state stays \<open>stopped\<close> the timers that a stop leaves behind are harmless: one
  that fires sends nothing and removes its own entry, and \<open>deactivate\<close> empties the map at
  once.
\<close>

lemma stopped_timers_silent:
  "(serverState s = stopped \<longrightarrow>
      snd (fire t s) = [] \<and> map_of (debounceTimers (fst (fire t s))) (uri (target t)) = None)
   \<and> (timers_ok s \<and> serverState s = stopped \<and> DEBOUNCE_MS \<le> d \<longrightarrow>
        snd (step (Elapse d) s) = [] \<and> debounceTimers (fst (step (Elapse d) s)) = []
        \<and> timeouts (fst (step (Elapse d) s)) = [] \<and> serverState (fst (step (Elapse d) s)) = stopped)
   \<and> (\<exists>s1. deactivate a b s = Inr s1 \<and> debounceTimers s1 = []
          \<and> (timers_ok s \<longrightarrow> timeouts s1 = []))"
proof -
  have 1: "snd (fire t s) = [] \<and> map_of (debounceTimers (fst (fire t s))) (uri (target t)) = None"
    if "serverState s = stopped"
    using that
    by (simp add: fire_eq broadcast_closed_gate map_of_filter_key [of "\<lambda>k. k \<noteq> uri (target t)"])
  have 2: "snd (step (Elapse d) s) = [] \<and> debounceTimers (fst (step (Elapse d) s)) = []
        \<and> timeouts (fst (step (Elapse d) s)) = [] \<and> serverState (fst (step (Elapse d) s)) = stopped"
    if "timers_ok s \<and> serverState s = stopped \<and> DEBOUNCE_MS \<le> d"
    using that elapse_all [of s d] step_silent [of s "Elapse d"] by (simp add: elapse_serverState)
  have 3: "\<exists>s1. deactivate a b s = Inr s1 \<and> debounceTimers s1 = []
          \<and> (timers_ok s \<longrightarrow> timeouts s1 = [])"
  proof (cases "timers_ok s")
    case True
    then show ?thesis by (simp add: deactivate_ok_eq)
  next
    case False
    then show ?thesis by (simp add: deactivate_eq)
  qed
  from 1 2 3 show ?thesis by blast
qed

text \<open>
  C5. The claim is that stopping cancels every outstanding timer, so that no timer is
  pending and \<open>debounceTimers\<close> is empty whenever the state is \<open>stopped\<close>. The code does not
  do this: \<open>stopServer\<close> cancels no timer and leaves \<open>debounceTimers\<close> as it is, where
  \<open>deactivate\<close> cancels them all. From the initial state, starting the server, editing a
  document and stopping 10 ms later ends in state \<open>stopped\<close> with the timer of the edit
  still pending and recorded, while the same run ended by \<open>deactivate\<close> leaves none. The
  timer outlives the session: when the server is started again within the quiet window, it
  fires in the new session and the edit made before the stop is broadcast to the new
  session's client.
\<close>

theorem stopServer_leaves_timers:
  "serverState (fst (run [Toggle (Some ''/w''), PortProbed free_host, Listening,
       Edit example_doc ''<p>x</p>'', Elapse 10, Stop False False] initial)) = stopped
   \<and> debounceTimers (fst (run [Toggle (Some ''/w''), PortProbed free_host, Listening,
       Edit example_doc ''<p>x</p>'', Elapse 10, Stop False False] initial))
        = [(''file:///w/index.html'', 0)]
   \<and> timeouts (fst (run [Toggle (Some ''/w''), PortProbed free_host, Listening,
       Edit example_doc ''<p>x</p>'', Elapse 10, Stop False False] initial))
        = [\<lparr>handle = 0, due = 140, target = example_doc\<rparr>]
   \<and> debounceTimers (fst (run [Toggle (Some ''/w''), PortProbed free_host, Listening,
       Edit example_doc ''<p>x</p>'', Elapse 10, Deactivate False False] initial)) = []
   \<and> timeouts (fst (run [Toggle (Some ''/w''), PortProbed free_host, Listening,
       Edit example_doc ''<p>x</p>'', Elapse 10, Deactivate False False] initial)) = []
   \<and> snd (run [Toggle (Some ''/w''), PortProbed free_host, Listening,
       Edit example_doc ''<p>x</p>'', Elapse 10, Stop False False,
       Toggle None, PortProbed free_host, Listening, ClientOpen 2, Elapse 130] initial)
        = [\<lparr>source = example_doc,
             payload = \<lparr>msg_file = ''/w/index.html'', msg_content = ''<p>x</p>''\<rparr>,
             recipients = [2]\<rparr>]"
  by (simp add: engine_defs deactivate_def initial_def example_doc_def free_host_def
      getFreePort.simps ext_html)

end
